theory Spec2Isabelle
  imports Main "HOL-Library.Sublist" "HOL-Library.Word"
begin

unbundle bit_operations_syntax

section \<open>Retry Delivery Queue (class RetryQueue)\<close>

text \<open>
  The class has three fields: the task list \<open>queue\<close>, the flag \<open>running\<close> and the
  status-bar item \<open>errorItem\<close> (absent until the first failure; here its tooltip and
  whether it is shown). A task is a closure \<open>() => Promise<void>\<close>; the queue never looks
  inside it, so a task is a value of an arbitrary type \<open>'a\<close> and the outcome of each of
  its attempts comes from the environment.

  \<open>run\<close> is an async function. Every call that passes the guard
  \<open>if (this.running) return\<close> is an activation of the drain loop; between two of its
  \<open>await\<close>s it runs without interruption. An activation is therefore described by
  the \<open>await\<close> it is suspended at, together with its local variables \<open>task\<close> and
  \<open>delay\<close>:
  \<^item> \<open>AwaitTask t d\<close>: at \<open>await task()\<close>;
  \<^item> \<open>AwaitClear\<close>: at \<open>await this.clearError()\<close>;
  \<^item> \<open>AwaitShow t d\<close>: at \<open>await this.showError(...)\<close>;
  \<^item> \<open>AwaitTimer t d\<close>: at \<open>await new Promise((r) => setTimeout(r, delay))\<close>;
  \<^item> \<open>Finished\<close>: the \<open>while\<close> loop was left and the \<open>finally\<close> block has run.
  The state keeps every activation ever started (\<open>loops\<close>), so that the number of
  activations in flight is something to be proved, not assumed. \<open>trace\<close> is the
  chronological list of what an observer sees: a call of a task, its success, its
  failure, and each \<open>setTimeout\<close> with its delay in milliseconds.
\<close>

datatype 'a loop =
    AwaitTask 'a nat
  | AwaitClear
  | AwaitShow 'a nat
  | AwaitTimer 'a nat
  | Finished

datatype 'a obs = Attempt 'a | Success 'a | Failure 'a | Wait nat

record 'a retry_queue =
  queue :: "'a list"
  running :: bool
  errorItem :: "(string \<times> bool) option"
  loops :: "'a loop list"
  trace :: "'a obs list"

definition init :: "'a retry_queue" where
  "init = \<lparr>queue = [], running = False, errorItem = None, loops = [], trace = []\<rparr>"

text \<open>
  \<open>showError\<close> creates the item on first use, sets the tooltip and shows it;
  \<open>clearError\<close> hides it when it exists. Both bodies contain no \<open>await\<close>, so they run
  to their end when called. (The tooltip is the rejection message behind a constant
  prefix, which is left out here.)
\<close>

definition showError :: "string \<Rightarrow> 'a retry_queue \<Rightarrow> 'a retry_queue" where
  "showError message s =
     (case errorItem s of
        None \<Rightarrow> s\<lparr>errorItem := Some (message, True)\<rparr>
      | Some _ \<Rightarrow> s\<lparr>errorItem := Some (message, True)\<rparr>)"

definition clearError :: "'a retry_queue \<Rightarrow> 'a retry_queue" where
  "clearError s =
     (case errorItem s of
        None \<Rightarrow> s
      | Some (m, _) \<Rightarrow> s\<lparr>errorItem := Some (m, False)\<rparr>)"

text \<open>
  The head of \<open>while (this.queue.length)\<close> for activation \<open>i\<close>: on an empty queue the
  loop ends and \<open>finally\<close> resets the flag; otherwise the head is shifted off, \<open>delay\<close>
  starts at 1000 and the task is called, which suspends the activation at
  \<open>await task()\<close>.
\<close>

definition run_while :: "nat \<Rightarrow> 'a retry_queue \<Rightarrow> 'a retry_queue" where
  "run_while i s =
     (case queue s of
        [] \<Rightarrow> s\<lparr>running := False, loops := (loops s)[i := Finished]\<rparr>
      | t # q \<Rightarrow> s\<lparr>queue := q, loops := (loops s)[i := AwaitTask t 1000],
                   trace := trace s @ [Attempt t]\<rparr>)"

text \<open>
  \<open>run\<close>: the guard, then the flag, then the loop. A new activation takes the next
  slot of \<open>loops\<close>, which \<open>run_while\<close> fills within the same step.
\<close>

definition run :: "'a retry_queue \<Rightarrow> 'a retry_queue" where
  "run s =
     (if running s then s
      else run_while (length (loops s)) (s\<lparr>running := True, loops := loops s @ [Finished]\<rparr>))"

definition enqueue :: "'a \<Rightarrow> 'a retry_queue \<Rightarrow> 'a retry_queue" where
  "enqueue task s = run (s\<lparr>queue := queue s @ [task]\<rparr>)"

text \<open>
  What can happen to the queue: a caller enqueues a task, or a suspended activation
  \<open>i\<close> is resumed: the promise of its task is fulfilled (\<open>Resolve\<close>) or rejected with a
  message (\<open>Reject\<close>), the promise of \<open>clearError\<close>/\<open>showError\<close> is fulfilled
  (\<open>Resume\<close>), or its timer fires (\<open>Timeout\<close>). An event that does not match the
  \<open>await\<close> the activation is suspended at cannot happen (\<open>None\<close>).
\<close>

datatype 'a event = Enqueue 'a | Resolve nat | Reject nat string | Resume nat | Timeout nat

definition suspended :: "'a retry_queue \<Rightarrow> nat \<Rightarrow> 'a loop" where
  "suspended s i = (if i < length (loops s) then loops s ! i else Finished)"

fun step :: "'a retry_queue \<Rightarrow> 'a event \<Rightarrow> 'a retry_queue option" where
  "step s (Enqueue t) = Some (enqueue t s)"
| "step s (Resolve i) =
     (case suspended s i of
        AwaitTask t d \<Rightarrow>
          Some (clearError (s\<lparr>loops := (loops s)[i := AwaitClear],
                               trace := trace s @ [Success t]\<rparr>))
      | _ \<Rightarrow> None)"
| "step s (Reject i message) =
     (case suspended s i of
        AwaitTask t d \<Rightarrow>
          Some (showError message (s\<lparr>loops := (loops s)[i := AwaitShow t d],
                                        trace := trace s @ [Failure t]\<rparr>))
      | _ \<Rightarrow> None)"
| "step s (Resume i) =
     (case suspended s i of
        AwaitClear \<Rightarrow> Some (run_while i s)
      | AwaitShow t d \<Rightarrow>
          Some (s\<lparr>loops := (loops s)[i := AwaitTimer t d], trace := trace s @ [Wait d]\<rparr>)
      | _ \<Rightarrow> None)"
| "step s (Timeout i) =
     (case suspended s i of
        AwaitTimer t d \<Rightarrow>
          Some (s\<lparr>loops := (loops s)[i := AwaitTask t (min (d * 2) 30000)],
                  trace := trace s @ [Attempt t]\<rparr>)
      | _ \<Rightarrow> None)"

fun exec :: "'a retry_queue \<Rightarrow> 'a event list \<Rightarrow> 'a retry_queue option" where
  "exec s [] = Some s"
| "exec s (e # es) = (case step s e of None \<Rightarrow> None | Some s' \<Rightarrow> exec s' es)"

text \<open>Derived views of a state and of a run.\<close>

fun finished :: "'a loop \<Rightarrow> bool" where
  "finished Finished = True"
| "finished _ = False"

definition inflight :: "'a retry_queue \<Rightarrow> 'a loop list" where
  "inflight s = filter (\<lambda>l. \<not> finished l) (loops s)"

fun holds :: "'a loop \<Rightarrow> 'a list" where
  "holds (AwaitTask t d) = [t]"
| "holds (AwaitShow t d) = [t]"
| "holds (AwaitTimer t d) = [t]"
| "holds AwaitClear = []"
| "holds Finished = []"

definition current :: "'a retry_queue \<Rightarrow> 'a list" where
  "current s = concat (map holds (loops s))"

fun completed :: "'a obs list \<Rightarrow> 'a list" where
  "completed [] = []"
| "completed (Success t # tr) = t # completed tr"
| "completed (_ # tr) = completed tr"

fun enqueued :: "'a event list \<Rightarrow> 'a list" where
  "enqueued [] = []"
| "enqueued (Enqueue t # es) = t # enqueued es"
| "enqueued (_ # es) = enqueued es"

text \<open>
  The shape every reachable state has: while the flag is set, the activation started
  last is the only one not finished; while it is clear, none is in flight and the
  queue is empty.
\<close>

definition wf :: "'a retry_queue \<Rightarrow> bool" where
  "wf s \<longleftrightarrow>
     (if running s
      then loops s \<noteq> [] \<and> list_all finished (butlast (loops s)) \<and>
           \<not> finished (last (loops s))
      else list_all finished (loops s) \<and> queue s = [])"

text \<open>
  The number of calls of the task being worked on: the \<open>Attempt\<close>s since the last
  \<open>Success\<close>. The local variable \<open>delay\<close> of an activation is determined by it.
\<close>

fun attempt_count :: "nat \<Rightarrow> 'a obs list \<Rightarrow> nat" where
  "attempt_count k [] = k"
| "attempt_count k (Attempt t # tr) = attempt_count (Suc k) tr"
| "attempt_count k (Success t # tr) = attempt_count 0 tr"
| "attempt_count k (_ # tr) = attempt_count k tr"

fun delay_ok :: "nat \<Rightarrow> 'a loop \<Rightarrow> bool" where
  "delay_ok c (AwaitTask t d) = (0 < c \<and> d = min (1000 * 2 ^ (c - 1)) 30000)"
| "delay_ok c (AwaitShow t d) = (0 < c \<and> d = min (1000 * 2 ^ (c - 1)) 30000)"
| "delay_ok c (AwaitTimer t d) = (0 < c \<and> d = min (1000 * 2 ^ (c - 1)) 30000)"
| "delay_ok c AwaitClear = (c = 0)"
| "delay_ok c Finished = True"

definition backoff_inv :: "'a retry_queue \<Rightarrow> bool" where
  "backoff_inv s \<longleftrightarrow>
     list_all (delay_ok (attempt_count 0 (trace s))) (loops s) \<and>
     (\<not> running s \<longrightarrow> attempt_count 0 (trace s) = 0)"

section \<open>Byte and text encodings (Buffer)\<close>

text \<open>
  The program hands bytes and text to Node's \<open>Buffer\<close>: \<open>buf.toString('base64')\<close>,
  \<open>Buffer.from(s, 'base64')\<close>, \<open>buf.toString('utf8')\<close> and \<open>Buffer.from(s)\<close>. These
  library functions are not part of the repository; they are modelled here by the
  encodings they implement (RFC 4648 base64 with padding, UTF-8).
\<close>

type_synonym byte = "8 word"

subsection \<open>Base64\<close>

definition b64_alphabet :: string where
  "b64_alphabet = ''ABCDEFGHIJKLMNOPQRSTUVWXYZabcdefghijklmnopqrstuvwxyz0123456789+/''"

definition b64_char :: "nat \<Rightarrow> char" where
  "b64_char n = b64_alphabet ! n"

text \<open>Three bytes make four 6-bit groups; one or two trailing bytes make two or three.\<close>

fun sextets :: "nat list \<Rightarrow> nat list" where
  "sextets (a # b # c # bs) =
     [a div 4, (a mod 4) * 16 + b div 16, (b mod 16) * 4 + c div 64, c mod 64] @ sextets bs"
| "sextets [a, b] = [a div 4, (a mod 4) * 16 + b div 16, (b mod 16) * 4]"
| "sextets [a] = [a div 4, (a mod 4) * 16]"
| "sextets [] = []"

definition b64_encode :: "byte list \<Rightarrow> string" where
  "b64_encode bs =
     (let cs = map b64_char (sextets (map unat bs))
      in cs @ replicate ((4 - length cs mod 4) mod 4) (CHR ''=''))"

text \<open>
  \<open>Buffer.from(s, 'base64')\<close> never throws: it reads up to the first \<open>=\<close>, skips every
  character that is not a base64 digit (the URL-safe digits \<open>-\<close> and \<open>_\<close> count as 62
  and 63), and turns the digits into bytes, dropping the bits of an incomplete last
  byte.
\<close>

definition b64_value :: "char \<Rightarrow> nat option" where
  "b64_value c =
     (if c = CHR ''-'' then Some 62
      else if c = CHR ''_'' then Some 63
      else map_of (zip b64_alphabet [0..<64]) c)"

fun unsextets :: "nat list \<Rightarrow> nat list" where
  "unsextets (p # q # r # s # ss) =
     [p * 4 + q div 16, (q mod 16) * 16 + r div 4, (r mod 4) * 64 + s] @ unsextets ss"
| "unsextets [p, q, r] = [p * 4 + q div 16, (q mod 16) * 16 + r div 4]"
| "unsextets [p, q] = [p * 4 + q div 16]"
| "unsextets [p] = []"
| "unsextets [] = []"

definition b64_decode :: "string \<Rightarrow> byte list" where
  "b64_decode s =
     map of_nat (unsextets (List.map_filter b64_value (takeWhile (\<lambda>c. c \<noteq> CHR ''='') s)))"

subsection \<open>UTF-8\<close>

text \<open>
  Text is a list of Unicode code points. \<open>Buffer.from(s)\<close> encodes it as UTF-8; a code
  point that is not a scalar value (a lone surrogate) is encoded as U+FFFD.
  \<open>buf.toString('utf8')\<close> decodes, and puts U+FFFD where the bytes are not UTF-8, so
  it is total and yields scalar values only.
\<close>

definition scalar :: "nat \<Rightarrow> bool" where
  "scalar cp \<longleftrightarrow> cp < 0x110000 \<and> \<not> (0xD800 \<le> cp \<and> cp < 0xE000)"

definition utf8_of :: "nat \<Rightarrow> nat list" where
  "utf8_of cp =
     (if \<not> scalar cp then [0xEF, 0xBF, 0xBD]
      else if cp < 0x80 then [cp]
      else if cp < 0x800 then [0xC0 + cp div 64, 0x80 + cp mod 64]
      else if cp < 0x10000 then
        [0xE0 + cp div 4096, 0x80 + cp div 64 mod 64, 0x80 + cp mod 64]
      else
        [0xF0 + cp div 262144, 0x80 + cp div 4096 mod 64, 0x80 + cp div 64 mod 64,
         0x80 + cp mod 64])"

definition utf8_encode :: "nat list \<Rightarrow> byte list" where
  "utf8_encode text = map of_nat (concat (map utf8_of text))"

definition cont :: "nat \<Rightarrow> bool" where
  "cont b \<longleftrightarrow> 0x80 \<le> b \<and> b < 0xC0"

text \<open>The code points that sequences of two, three and four bytes stand for.\<close>

definition cp2 :: "nat \<Rightarrow> nat \<Rightarrow> nat" where
  "cp2 b c = (b - 0xC0) * 64 + (c - 0x80)"

definition cp3 :: "nat \<Rightarrow> nat \<Rightarrow> nat \<Rightarrow> nat" where
  "cp3 b c d = (b - 0xE0) * 4096 + (c - 0x80) * 64 + (d - 0x80)"

definition cp4 :: "nat \<Rightarrow> nat \<Rightarrow> nat \<Rightarrow> nat \<Rightarrow> nat" where
  "cp4 b c d e = (b - 0xF0) * 262144 + (c - 0x80) * 4096 + (d - 0x80) * 64 + (e - 0x80)"

fun utf8_scan :: "nat list \<Rightarrow> nat list" where
  "utf8_scan [] = []"
| "utf8_scan (b # bs) =
     (if b < 0x80 then b # utf8_scan bs
      else if 0xC2 \<le> b \<and> b < 0xE0 then
        (case bs of
           c # r \<Rightarrow>
             if cont c then cp2 b c # utf8_scan r
             else 0xFFFD # utf8_scan bs
         | _ \<Rightarrow> 0xFFFD # utf8_scan bs)
      else if 0xE0 \<le> b \<and> b < 0xF0 then
        (case bs of
           c # d # r \<Rightarrow>
             if cont c \<and> cont d \<and> 0x800 \<le> cp3 b c d \<and> scalar (cp3 b c d)
             then cp3 b c d # utf8_scan r
             else 0xFFFD # utf8_scan bs
         | _ \<Rightarrow> 0xFFFD # utf8_scan bs)
      else if 0xF0 \<le> b \<and> b < 0xF5 then
        (case bs of
           c # d # e # r \<Rightarrow>
             if cont c \<and> cont d \<and> cont e \<and> 0x10000 \<le> cp4 b c d e \<and> scalar (cp4 b c d e)
             then cp4 b c d e # utf8_scan r
             else 0xFFFD # utf8_scan bs
         | _ \<Rightarrow> 0xFFFD # utf8_scan bs)
      else 0xFFFD # utf8_scan bs)"

definition utf8_decode :: "byte list \<Rightarrow> nat list" where
  "utf8_decode buf = utf8_scan (map unat buf)"

section \<open>Host environment\<close>

text \<open>
  What the program asks of the editor, the file system and the network is answered by
  the host. \<open>path.sep\<close> depends on the platform. A file-system call either yields a
  value or throws (\<open>None\<close>); \<open>rejects\<close> says which of the calls that return nothing
  (\<open>createDirectory\<close>, \<open>delete\<close>, \<open>writeFile\<close>) throw. \<open>stat\<close> yields the
  \<open>FileType\<close> bit mask (File = 1, Directory = 2, SymbolicLink = 64).

  What is written to a file is bytes, or one of the two JSON texts of the materializer,
  which are kept symbolic: the marker holds the \<open>SyncConfig\<close> (server URL and
  \<open>StartPayload\<close>), the settings file holds what could be read and parsed of the old
  one, with \<open>files.exclude\<close> extended.
\<close>

datatype platform = Posix | Win32

record start_payload =
  student :: "string option"
  exercise :: "string option"
  token :: "string option"

datatype content =
    Bytes "byte list"
  | MarkerJson string start_payload
  | SettingsJson "byte list option"

datatype fs_op =
    CreateDirectory string
  | Delete string
  | WriteFile string content

record url =
  origin :: string
  pathname :: string
  searchParams :: "(string \<times> string) list"

record manifest_entry =
  path :: string
  type :: string
  contentBase64 :: "string option"

record response =
  status :: nat
  json :: "manifest_entry list option"

record host =
  os :: platform
  tmpdir :: string
  workspaceFolders :: "string list option"
  readDirectory :: "string \<Rightarrow> string list option"
  readFile :: "string \<Rightarrow> byte list option"
  stat :: "string \<Rightarrow> nat option"
  rejects :: "fs_op \<Rightarrow> bool"
  isBinaryFile :: "byte list \<Rightarrow> bool"
  parseURL :: "string \<Rightarrow> url option"
  fetch :: "url \<Rightarrow> response option"
  dateNow :: nat
  randomSuffix :: string

definition sep :: "platform \<Rightarrow> char" where
  "sep pf = (case pf of Posix \<Rightarrow> CHR ''/'' | Win32 \<Rightarrow> CHR 0x5C)"

definition FileType_File :: nat where "FileType_File = 1"
definition FileType_Directory :: nat where "FileType_Directory = 2"

subsection \<open>Paths\<close>

text \<open>
  \<open>path.relative(from, to)\<close> of Node, for absolute paths. Both paths are resolved
  first: they are cut into segments at the separators (\<open>/\<close>, and on Windows also the
  backslash), empty segments are dropped, \<open>.\<close> is dropped and \<open>..\<close> removes the segment
  before it. Then the segments the two paths share are dropped, every remaining segment
  of \<open>from\<close> becomes \<open>..\<close>, and the remaining segments of \<open>to\<close> follow, joined by
  \<open>path.sep\<close>. On Windows segments are compared without regard to the case of the
  letters A to Z, the first segment is the device (\<open>C:\<close>), and paths on different
  devices have no relative form: the resolved \<open>to\<close> is returned, which is absolute.
\<close>

definition is_sep :: "platform \<Rightarrow> char \<Rightarrow> bool" where
  "is_sep pf c \<longleftrightarrow> c = CHR ''/'' \<or> (pf = Win32 \<and> c = CHR 0x5C)"

fun split_where :: "(char \<Rightarrow> bool) \<Rightarrow> string \<Rightarrow> string list" where
  "split_where P [] = [[]]"
| "split_where P (x # xs) =
     (if P x then [] # split_where P xs
      else case split_where P xs of
             [] \<Rightarrow> [[x]]
           | w # ws \<Rightarrow> (x # w) # ws)"

definition segments :: "platform \<Rightarrow> string \<Rightarrow> string list" where
  "segments pf p = filter (\<lambda>w. w \<noteq> []) (split_where (is_sep pf) p)"

definition resolve_dots :: "string list \<Rightarrow> string \<Rightarrow> string list" where
  "resolve_dots acc w =
     (if w = ''.'' then acc else if w = ''..'' then butlast acc else acc @ [w])"

definition normalized :: "platform \<Rightarrow> string \<Rightarrow> string list" where
  "normalized pf p =
     (case pf of
        Posix \<Rightarrow> foldl resolve_dots [] (segments pf p)
      | Win32 \<Rightarrow> take 1 (segments pf p) @ foldl resolve_dots [] (drop 1 (segments pf p)))"

definition lower :: "char \<Rightarrow> char" where
  "lower c =
     (case map_of (zip ''ABCDEFGHIJKLMNOPQRSTUVWXYZ'' ''abcdefghijklmnopqrstuvwxyz'') c of
        None \<Rightarrow> c
      | Some l \<Rightarrow> l)"

definition same_segment :: "platform \<Rightarrow> string \<Rightarrow> string \<Rightarrow> bool" where
  "same_segment pf a b \<longleftrightarrow> (if pf = Win32 then map lower a = map lower b else a = b)"

fun join_with :: "char \<Rightarrow> string list \<Rightarrow> string" where
  "join_with c [] = []"
| "join_with c [w] = w"
| "join_with c (w # ws) = w @ c # join_with c ws"

fun strip_common ::
  "(string \<Rightarrow> string \<Rightarrow> bool) \<Rightarrow> string list \<Rightarrow> string list \<Rightarrow> string list \<times> string list" where
  "strip_common eq (a # as) (b # bs) =
     (if eq a b then strip_common eq as bs else (a # as, b # bs))"
| "strip_common eq as bs = (as, bs)"

definition path_relative :: "platform \<Rightarrow> string \<Rightarrow> string \<Rightarrow> string" where
  "path_relative pf from to =
     (if pf = Win32 \<and>
         \<not> list_all2 (same_segment pf) (take 1 (normalized pf from)) (take 1 (normalized pf to))
      then join_with (sep pf) (normalized pf to)
      else case strip_common (same_segment pf) (normalized pf from) (normalized pf to) of
             (up, down) \<Rightarrow> join_with (sep pf) (replicate (length up) ''..'' @ down))"

text \<open>\<open>.replace(/\\/g, '/')\<close>: every backslash becomes a slash.\<close>

definition to_slashes :: "string \<Rightarrow> string" where
  "to_slashes s = map (\<lambda>c. if c = CHR 0x5C then CHR ''/'' else c) s"

text \<open>
  \<open>vscode.Uri.joinPath(base, name).fsPath\<close> and \<open>path.dirname\<close>, for a base without a
  trailing separator.
\<close>

definition joinPath :: "platform \<Rightarrow> string \<Rightarrow> string \<Rightarrow> string" where
  "joinPath pf base name = base @ sep pf # name"

definition dirname :: "platform \<Rightarrow> string \<Rightarrow> string" where
  "dirname pf p = rev (tl (dropWhile (\<lambda>c. c \<noteq> sep pf) (rev p)))"


section \<open>Change Capture Engine (beginWatchAndSync)\<close>

text \<open>
  A document or file is identified by a \<open>vscode.Uri\<close>, of which the program reads
  \<open>scheme\<close>, \<open>fsPath\<close> and \<open>toString()\<close>.
\<close>

record uri =
  scheme :: string
  fsPath :: string

definition uri_toString :: "uri \<Rightarrow> string" where
  "uri_toString u = scheme u @ ''://'' @ fsPath u"

text \<open>
  The body of a POST, one constructor per endpoint; \<open>postJson\<close> adds the identity
  fields of the session. \<open>isDirectory\<close> of a create event is absent when \<open>stat\<close>
  failed. A task handed to the queue is one of the two closures the program builds:
  \<open>() => postJson(path, body)\<close> and \<open>() => sendFileSnapshot(uri)\<close>.
\<close>

datatype body =
    FileSnapshot string bool string
  | Create string "bool option"
  | DeleteEvent string
  | Rename string string
  | Heartbeat nat

datatype task = PostJson string body | SendFileSnapshot uri



definition rel_path :: "host \<Rightarrow> uri \<Rightarrow> uri \<Rightarrow> string" where
  "rel_path h root u = to_slashes (path_relative (os h) (fsPath root) (fsPath u))"

text \<open>
  What the specification asks of a path value, to be compared with \<open>rel_path\<close>. A
  file is below the session root when its resolved path consists of the segments of
  the resolved root, compared as the platform compares them, followed by at least one
  more segment, none of which contains a backslash (on POSIX a backslash may be part
  of a file name). Its root-relative path is these further segments joined by slashes.
\<close>

definition below :: "host \<Rightarrow> uri \<Rightarrow> uri \<Rightarrow> bool" where
  "below h root u \<longleftrightarrow>
     (let r = normalized (os h) (fsPath root); p = normalized (os h) (fsPath u)
      in r \<noteq> [] \<and> length r < length p \<and>
         list_all2 (same_segment (os h)) r (take (length r) p) \<and>
         list_all (\<lambda>w. CHR 0x5C \<notin> set w) (drop (length r) p))"

definition root_relative :: "host \<Rightarrow> uri \<Rightarrow> uri \<Rightarrow> string" where
  "root_relative h root u =
     join_with (CHR ''/'')
       (drop (length (normalized (os h) (fsPath root))) (normalized (os h) (fsPath u)))"

text \<open>
  \<open>sendFileSnapshot\<close> reads the file, which may throw, and otherwise enqueues one POST
  of the content: the bytes as base64 when the file is binary, and else the text
  decoded from the bytes, encoded again and turned into base64. The result is the task
  it enqueues.
\<close>

definition sendFileSnapshot :: "host \<Rightarrow> uri \<Rightarrow> uri \<Rightarrow> task option" where
  "sendFileSnapshot h root abs_uri =
     (let rel = rel_path h root abs_uri in
      case readFile h (fsPath abs_uri) of
        None \<Rightarrow> None
      | Some buf \<Rightarrow>
          let isBin = isBinaryFile h buf;
              text = utf8_decode buf
          in Some (PostJson ''/event/fileSnapshot''
                    (FileSnapshot rel isBin
                       (if isBin then b64_encode buf else b64_encode (utf8_encode text)))))"

text \<open>The watcher's handlers; each yields the tasks it enqueues, in order.\<close>

definition onDidCreate :: "host \<Rightarrow> uri \<Rightarrow> uri \<Rightarrow> task list" where
  "onDidCreate h root u =
     (let rel = rel_path h root u in
      case stat h (fsPath u) of
        Some ty \<Rightarrow>
          if ty AND FileType_Directory \<noteq> 0 then
            [PostJson ''/event/create'' (Create rel (Some True))]
          else if ty AND FileType_File \<noteq> 0 then
            [PostJson ''/event/create'' (Create rel (Some False)), SendFileSnapshot u]
          else []
      | None \<Rightarrow> [PostJson ''/event/create'' (Create rel None), SendFileSnapshot u])"

definition onDidChange :: "host \<Rightarrow> uri \<Rightarrow> task list" where
  "onDidChange h u =
     (case stat h (fsPath u) of
        Some ty \<Rightarrow> if ty AND FileType_File \<noteq> 0 then [SendFileSnapshot u] else []
      | None \<Rightarrow> [])"



definition heartbeat :: "host \<Rightarrow> task" where
  "heartbeat h = PostJson ''/event/heartbeat'' (Heartbeat (dateNow h))"

subsection \<open>Debounced text edits\<close>

text \<open>
  \<open>pendingTimers\<close> maps \<open>uri.toString()\<close> to the pending timer of that document; here
  each entry carries the time at which the timer is due and the document. An edit at
  time \<open>now\<close> to a document that passes the filter clears the document's pending timer
  and sets a new one, due 500 ms later. When a timer fires, its entry is deleted and
  \<open>sendFileSnapshot\<close> is called for the document.
\<close>

text \<open>
  A burst of edits: each arrives less than 500 ms after the one before.
\<close>

fun burst :: "nat list \<Rightarrow> bool" where
  "burst [] = True"
| "burst [t] = True"
| "burst (t # t' # ts) = (t \<le> t' \<and> t' < t + 500 \<and> burst (t' # ts))"

type_synonym timers = "(string \<times> nat \<times> uri) list"

definition onDidChangeTextDocument :: "uri \<Rightarrow> nat \<Rightarrow> uri \<Rightarrow> timers \<Rightarrow> timers" where
  "onDidChangeTextDocument root now u pendingTimers =
     (if scheme u \<noteq> ''file'' \<or> \<not> prefix (fsPath root) (fsPath u) then pendingTimers
      else filter (\<lambda>(k, _). k \<noteq> uri_toString u) pendingTimers
           @ [(uri_toString u, now + 500, u)])"

text \<open>
  Time passing up to \<open>now\<close>: the timers that are due fire; the result is the calls of
  \<open>sendFileSnapshot\<close> (time and document) and the timers still pending.
\<close>

definition fire_due :: "nat \<Rightarrow> timers \<Rightarrow> (nat \<times> uri) list \<times> timers" where
  "fire_due now pendingTimers =
     (map snd (filter (\<lambda>(k, due, u). due \<le> now) pendingTimers),
      filter (\<lambda>(k, due, u). \<not> due \<le> now) pendingTimers)"

text \<open>
  A sequence of edits, each with its arrival time, followed by a quiet period up to
  \<open>end\<close>: the calls of \<open>sendFileSnapshot\<close> made so far, in order.
\<close>

fun edits :: "uri \<Rightarrow> (nat \<times> uri) list \<Rightarrow> nat \<Rightarrow> timers \<Rightarrow> (nat \<times> uri) list" where
  "edits root [] end pendingTimers = fst (fire_due end pendingTimers)"
| "edits root ((now, u) # es) end pendingTimers =
     (case fire_due now pendingTimers of
        (fired, rest) \<Rightarrow> fired @ edits root es end (onDidChangeTextDocument root now u rest))"


subsection \<open>The queue at work\<close>

text \<open>
  \<open>beginWatchAndSync\<close> creates one \<open>RetryQueue\<close>, and everything that is sent goes
  through it. The tasks it holds are closures, and each closure is an object of its
  own: here a \<open>job\<close>, which carries the task (\<open>work\<close>), its place in the order of
  the calls of \<open>queue.enqueue\<close> (\<open>jid\<close>), and, for a POST that \<open>sendFileSnapshot\<close>
  enqueued while it ran as a task of the queue, the \<open>jid\<close> of that task (\<open>cause\<close>).

  What happens to the queue, as seen from the engine:
  \<^item> \<open>Handler ts\<close>: a handler of the watcher, a timer or the initial scan calls
    \<open>queue.enqueue\<close> for the tasks \<open>ts\<close>, one after the other without an \<open>await\<close>
    in between;
  \<^item> \<open>Body i h\<close>: activation \<open>i\<close> of the drain loop is at \<open>await task()\<close> with a
    task \<open>() => sendFileSnapshot(uri)\<close>, and the body of \<open>sendFileSnapshot\<close> runs on
    the host as it is then: \<open>readFile\<close> throws, which rejects the promise of the task,
    or the POST of the content is enqueued;
  \<^item> \<open>Settled i ok\<close>: the promise of the task of activation \<open>i\<close> settles. For a
    snapshot task whose body has enqueued the POST it is fulfilled; for a task
    \<open>() => postJson(path, body)\<close> it is fulfilled when the response is \<open>ok\<close> and
    rejected otherwise;
  \<^item> \<open>Shown i\<close> and \<open>Fired i\<close>: activation \<open>i\<close> goes on after \<open>clearError\<close> or
    \<open>showError\<close>, and after its timer.
  The state is the queue, the events of the queue so far, and whether the body of the
  snapshot task in flight has enqueued its POST.
\<close>

record job =
  jid :: nat
  cause :: "nat option"
  work :: task

datatype input =
    Handler "task list"
  | Body nat host
  | Settled nat bool
  | Shown nat
  | Fired nat

record engine =
  retryQueue :: "job retry_queue"
  history :: "job event list"
  posted :: bool

definition engine_init :: engine where
  "engine_init = \<lparr>retryQueue = init, history = [], posted = False\<rparr>"

definition emit :: "job event \<Rightarrow> engine \<Rightarrow> engine option" where
  "emit e st =
     (case step (retryQueue st) e of
        None \<Rightarrow> None
      | Some s \<Rightarrow> Some (st\<lparr>retryQueue := s, history := history st @ [e]\<rparr>))"

definition submit :: "nat option \<Rightarrow> engine \<Rightarrow> task \<Rightarrow> engine" where
  "submit c st t =
     (let j = \<lparr>jid = length (enqueued (history st)), cause = c, work = t\<rparr>
      in st\<lparr>retryQueue := enqueue j (retryQueue st), history := history st @ [Enqueue j]\<rparr>)"

fun react :: "uri \<Rightarrow> engine \<Rightarrow> input \<Rightarrow> engine option" where
  "react root st (Handler ts) = Some (foldl (submit None) st ts)"
| "react root st (Body i h) =
     (case suspended (retryQueue st) i of
        AwaitTask j d \<Rightarrow>
          (case work j of
             SendFileSnapshot u \<Rightarrow>
               if posted st then None
               else (case sendFileSnapshot h root u of
                       None \<Rightarrow> emit (Reject i ''readFile'') st
                     | Some p \<Rightarrow> Some ((submit (Some (jid j)) st p)\<lparr>posted := True\<rparr>))
           | PostJson ep b \<Rightarrow> None)
      | _ \<Rightarrow> None)"
| "react root st (Settled i ok) =
     (case suspended (retryQueue st) i of
        AwaitTask j d \<Rightarrow>
          (case work j of
             SendFileSnapshot u \<Rightarrow>
               if posted st then emit (Resolve i) (st\<lparr>posted := False\<rparr>) else None
           | PostJson ep b \<Rightarrow>
               if ok then emit (Resolve i) st else emit (Reject i ''HTTP'') st)
      | _ \<Rightarrow> None)"
| "react root st (Shown i) = emit (Resume i) st"
| "react root st (Fired i) = emit (Timeout i) st"

fun engine_run :: "uri \<Rightarrow> engine \<Rightarrow> input list \<Rightarrow> engine option" where
  "engine_run root st [] = Some st"
| "engine_run root st (x # xs) =
     (case react root st x of None \<Rightarrow> None | Some st' \<Rightarrow> engine_run root st' xs)"

text \<open>
  What every reachable state of the engine satisfies: the queue is what the events so
  far lead to, the jobs are numbered in the order of their enqueueing, and a job with
  a cause is the POST that \<open>sendFileSnapshot\<close> produced, on some host, for the
  document of an earlier job.
\<close>

definition engine_inv :: "uri \<Rightarrow> engine \<Rightarrow> bool" where
  "engine_inv root st \<longleftrightarrow>
     exec init (history st) = Some (retryQueue st) \<and>
     map jid (enqueued (history st)) = [0..<length (enqueued (history st))] \<and>
     (\<forall>x \<in> set (enqueued (history st)). \<forall>m. cause x = Some m \<longrightarrow>
        m < jid x \<and>
        (\<exists>h u. work (enqueued (history st) ! m) = SendFileSnapshot u \<and>
               sendFileSnapshot h root u = Some (work x)))"
section \<open>Manifest Materializer\<close>

text \<open>
  What a materialization does to the outside world, in order, and how it can fail.
\<close>

datatype io = HttpGet url | Fs fs_op

datatype error =
    InvalidURL
  | FetchRejected
  | ManifestFetchFailed nat
  | JsonRejected
  | FsRejected fs_op

definition ensureDir :: "string \<Rightarrow> fs_op" where
  "ensureDir dir = CreateDirectory dir"

definition writeFileFromBase64 :: "string \<Rightarrow> string \<Rightarrow> fs_op" where
  "writeFileFromBase64 target base64 = WriteFile target (Bytes (b64_decode base64))"

text \<open>
  \<open>cleanupOldSessions\<close>: the open workspace folders below the sessions root are
  preserved; every other entry of the sessions root gets a recursive \<open>delete\<close>, whose
  failure is logged and does not stop the loop. A failing \<open>readDirectory\<close> leaves
  nothing to delete. The result is the deletes issued, in order.
\<close>

definition openFolders :: "host \<Rightarrow> string list" where
  "openFolders h = (case workspaceFolders h of None \<Rightarrow> [] | Some fs \<Rightarrow> fs)"

definition cleanupOldSessions :: "host \<Rightarrow> string \<Rightarrow> fs_op list" where
  "cleanupOldSessions h baseRoot =
     (let preserve = filter (\<lambda>p. prefix (baseRoot @ [sep (os h)]) p) (openFolders h);
          entries = (case readDirectory h baseRoot of None \<Rightarrow> [] | Some names \<Rightarrow> names)
      in map (\<lambda>name. Delete (joinPath (os h) baseRoot name))
           (filter (\<lambda>name. joinPath (os h) baseRoot name \<notin> set preserve) entries))"

text \<open>
  A path is gone after the cleanup when a delete that did not throw was issued for it
  or for a directory above it (the delete is recursive).
\<close>

definition removed :: "host \<Rightarrow> fs_op list \<Rightarrow> string \<Rightarrow> bool" where
  "removed h ops p =
     list_ex (\<lambda>x. case x of
                     Delete c \<Rightarrow> \<not> rejects h x \<and> (p = c \<or> prefix (c @ [sep (os h)]) p)
                   | _ \<Rightarrow> False) ops"

text \<open>\<open>URLSearchParams.set\<close>: the first pair of that name gets the value and the others
  go; without such a pair one is appended.\<close>

fun searchParams_set :: "string \<Rightarrow> string \<Rightarrow> (string \<times> string) list \<Rightarrow> (string \<times> string) list" where
  "searchParams_set k v [] = [(k, v)]"
| "searchParams_set k v ((k', v') # ps) =
     (if k' = k then (k, v) # filter (\<lambda>(n, _). n \<noteq> k) ps
      else (k', v') # searchParams_set k v ps)"

definition set_if :: "string \<Rightarrow> string option \<Rightarrow> (string \<times> string) list \<Rightarrow> (string \<times> string) list" where
  "set_if k field ps =
     (case field of
        None \<Rightarrow> ps
      | Some v \<Rightarrow> if v = [] then ps else searchParams_set k v ps)"

definition manifest_url :: "url \<Rightarrow> start_payload \<Rightarrow> url" where
  "manifest_url u payload =
     u\<lparr>pathname := ''/manifest'',
       searchParams :=
         set_if ''token'' (token payload)
           (set_if ''exercise'' (exercise payload)
              (set_if ''student'' (student payload) (searchParams u)))\<rparr>"

fun is_get :: "io \<Rightarrow> bool" where
  "is_get (HttpGet u) = True"
| "is_get (Fs x) = False"

definition ok :: "response \<Rightarrow> bool" where
  "ok res \<longleftrightarrow> 200 \<le> status res \<and> status res \<le> 299"

text \<open>
  The loop over the manifest: a directory entry is created; for any other entry the
  parent directory is created and the decoded content (the empty string when
  \<open>contentBase64\<close> is absent or empty) is written. \<open>ensureDir\<close> swallows a failure, a
  failing \<open>writeFile\<close> ends the materialization. The result is the calls issued and
  the call that threw, if any.
\<close>

fun write_entries :: "host \<Rightarrow> string \<Rightarrow> manifest_entry list \<Rightarrow> fs_op list \<times> fs_op option" where
  "write_entries h workspaceRoot [] = ([], None)"
| "write_entries h workspaceRoot (entry # es) =
     (let target = joinPath (os h) workspaceRoot (path entry) in
      if type entry = ''directory'' then
        (case write_entries h workspaceRoot es of
           (ops, r) \<Rightarrow> (ensureDir target # ops, r))
      else
        (let w = writeFileFromBase64 target
                   (case contentBase64 entry of None \<Rightarrow> [] | Some s \<Rightarrow> s)
         in if rejects h w then ([ensureDir (dirname (os h) target), w], Some w)
            else (case write_entries h workspaceRoot es of
                    (ops, r) \<Rightarrow> (ensureDir (dirname (os h) target) # w # ops, r))))"

fun decimal :: "nat \<Rightarrow> string" where
  "decimal n =
     (if n < 10 then [''0123456789'' ! n]
      else decimal (n div 10) @ [''0123456789'' ! (n mod 10)])"

definition folderName :: "host \<Rightarrow> start_payload \<Rightarrow> string" where
  "folderName h payload =
     ''session-'' @ decimal (dateNow h) @ ''-'' @ randomSuffix h @ ''-'' @
     (case exercise payload of None \<Rightarrow> ''unknown'' | Some e \<Rightarrow> e)"

definition downloadAndMaterializeWorkspace ::
  "host \<Rightarrow> string \<Rightarrow> start_payload \<Rightarrow> io list \<times> (error + string)" where
  "downloadAndMaterializeWorkspace h serverUrl payload =
     (case parseURL h serverUrl of
        None \<Rightarrow> ([], Inl InvalidURL)
      | Some u0 \<Rightarrow>
          let u = manifest_url u0 payload in
          case fetch h u of
            None \<Rightarrow> ([HttpGet u], Inl FetchRejected)
          | Some res \<Rightarrow>
              if \<not> ok res then ([HttpGet u], Inl (ManifestFetchFailed (status res)))
              else case json res of
                None \<Rightarrow> ([HttpGet u], Inl JsonRejected)
              | Some manifest \<Rightarrow>
                  let sessionsRoot = joinPath (os h) (tmpdir h) ''workspace-launch-by-link'';
                      workspaceRoot = joinPath (os h) sessionsRoot (folderName h payload);
                      before = HttpGet u # Fs (ensureDir sessionsRoot)
                               # map Fs (cleanupOldSessions h sessionsRoot)
                               @ [Fs (ensureDir workspaceRoot)]
                  in case write_entries h workspaceRoot manifest of
                       (ops, Some failed) \<Rightarrow> (before @ map Fs ops, Inl (FsRejected failed))
                     | (ops, None) \<Rightarrow>
                         let vscodeDir = joinPath (os h) workspaceRoot ''.vscode'';
                             markerUri = joinPath (os h) vscodeDir ''workspace-launch-by-link.json'';
                             settingsUri = joinPath (os h) vscodeDir ''settings.json'';
                             marker = WriteFile markerUri (MarkerJson serverUrl payload);
                             settings = WriteFile settingsUri (SettingsJson (readFile h settingsUri))
                         in if rejects h marker
                            then (before @ map Fs ops @ [Fs (ensureDir vscodeDir), Fs marker],
                                  Inl (FsRejected marker))
                            else (before @ map Fs ops
                                  @ [Fs (ensureDir vscodeDir), Fs marker, Fs settings],
                                  Inr workspaceRoot))"

section \<open>Example hosts and paths\<close>

text \<open>Concrete environments on which the theorems below are instantiated.\<close>

definition posix_host :: host where
  "posix_host =
     \<lparr>os = Posix, tmpdir = ''/tmp'',
      workspaceFolders = Some [''/tmp/workspace-launch-by-link/s1''],
      readDirectory = (\<lambda>p. if p = ''/tmp/workspace-launch-by-link'' then Some [''s1'', ''s2'']
                             else None),
      readFile = (\<lambda>p. if p = ''/w/s1/a.txt'' \<or> p = ''/w/s10/a.txt'' then Some [0x68, 0x69]
                        else if p = ''/w/s1/b.bin'' then Some [0x00, 0xFF]
                        else None),
      stat = (\<lambda>p. if p = ''/w/s1/a.txt'' then Some 1 else None),
      rejects = (\<lambda>x. False),
      isBinaryFile = (\<lambda>buf. 0 \<in> set buf),
      parseURL = (\<lambda>s. if s = ''http://localhost:8787''
                        then Some \<lparr>origin = ''http://localhost:8787'', pathname = ''/'',
                                   searchParams = []\<rparr>
                        else None),
      fetch = (\<lambda>u. Some \<lparr>status = 503, json = None\<rparr>),
      dateNow = 1700, randomSuffix = ''k3x9qa''\<rparr>"


definition posix_root :: uri where
  "posix_root = \<lparr>scheme = ''file'', fsPath = ''/w/s1''\<rparr>"

definition posix_file :: uri where
  "posix_file = \<lparr>scheme = ''file'', fsPath = ''/w/s1/a.txt''\<rparr>"






definition sibling_file :: uri where
  "sibling_file = \<lparr>scheme = ''file'', fsPath = ''/w/s10/a.txt''\<rparr>"

definition nested_host :: host where
  "nested_host =
     posix_host\<lparr>workspaceFolders := Some [''/tmp/workspace-launch-by-link/s1/src''],
                 rejects := (\<lambda>x. x = Delete ''/tmp/workspace-launch-by-link/s2'')\<rparr>"

definition empty_entry :: manifest_entry where
  "empty_entry = \<lparr>path = ''empty.txt'', type = ''file'', contentBase64 = None\<rparr>"

definition serving_host :: host where
  "serving_host = posix_host\<lparr>fetch := (\<lambda>u. Some \<lparr>status = 200, json = Some [empty_entry]\<rparr>)\<rparr>"


definition alice :: start_payload where
  "alice = \<lparr>student = Some ''alice'', exercise = Some ''week1'', token = None\<rparr>"

definition posix_binary :: uri where
  "posix_binary = \<lparr>scheme = ''file'', fsPath = ''/w/s1/b.bin''\<rparr>"

section \<open>Properties of the Retry Delivery Queue\<close>

subsection \<open>The shape of reachable states\<close>

lemma exec_snoc:
  "exec s (es @ [e]) = (case exec s es of None \<Rightarrow> None | Some s' \<Rightarrow> step s' e)"
  by (induction es arbitrary: s) (auto split: option.splits)

lemma wf_init: "wf init"
  by (simp add: wf_def init_def)

lemma suspended_wf:
  assumes "wf s" "\<not> finished (suspended s i)"
  shows "running s \<and> loops s \<noteq> [] \<and> i = length (loops s) - 1"
proof -
  from assms(2) have i: "i < length (loops s)" "\<not> finished (loops s ! i)"
    by (auto simp: suspended_def split: if_splits)
  show ?thesis
  proof (cases "running s")
    case False
    with assms(1) have "list_all finished (loops s)" by (simp add: wf_def)
    with i show ?thesis by (simp add: list_all_length)
  next
    case True
    with assms(1) have w: "loops s \<noteq> []" "list_all finished (butlast (loops s))"
      by (simp_all add: wf_def)
    have "\<not> i < length (loops s) - 1"
    proof
      assume "i < length (loops s) - 1"
      with w(2) have "finished (butlast (loops s) ! i)" by (simp add: list_all_length)
      with \<open>i < length (loops s) - 1\<close> i(2) show False by (simp add: nth_butlast)
    qed
    with i(1) True w(1) show ?thesis by simp
  qed
qed

lemma upd_last_conv: "xs \<noteq> [] \<Longrightarrow> xs[length xs - Suc 0 := x] = butlast xs @ [x]"
  by (induction xs rule: rev_induct) auto

lemma wf_step:
  assumes "wf s" "step s e = Some s'"
  shows "wf s'"
proof (cases e)
  case (Enqueue t)
  with assms show ?thesis
    by (auto simp: wf_def enqueue_def run_def run_while_def split: list.splits if_splits)
next
  case (Resolve i)
  with assms(2) obtain t d where a: "suspended s i = AwaitTask t d"
    by (auto split: loop.splits)
  with assms(1) have r: "running s" "loops s \<noteq> []" "i = length (loops s) - 1"
    using suspended_wf[of s i] by auto
  from assms Resolve a r show ?thesis
    by (auto simp: wf_def clearError_def upd_last_conv split: option.splits)
next
  case (Reject i m)
  with assms(2) obtain t d where a: "suspended s i = AwaitTask t d"
    by (auto split: loop.splits)
  with assms(1) have r: "running s" "loops s \<noteq> []" "i = length (loops s) - 1"
    using suspended_wf[of s i] by auto
  from assms Reject a r show ?thesis
    by (auto simp: wf_def showError_def upd_last_conv split: option.splits)
next
  case (Resume i)
  with assms(2) have a: "\<not> finished (suspended s i)"
    by (auto split: loop.splits)
  with assms(1) have r: "running s" "loops s \<noteq> []" "i = length (loops s) - 1"
    using suspended_wf[of s i] by auto
  from assms Resume a r show ?thesis
    by (auto simp: wf_def run_while_def upd_last_conv split: loop.splits list.splits)
next
  case (Timeout i)
  with assms(2) have a: "\<not> finished (suspended s i)"
    by (auto split: loop.splits)
  with assms(1) have r: "running s" "loops s \<noteq> []" "i = length (loops s) - 1"
    using suspended_wf[of s i] by auto
  from assms Timeout a r show ?thesis
    by (auto simp: wf_def upd_last_conv split: loop.splits)
qed

lemma wf_exec: "wf s \<Longrightarrow> exec s es = Some s' \<Longrightarrow> wf s'"
  by (induction es arbitrary: s) (auto split: option.splits dest: wf_step)

lemma wf_running_form:
  assumes "wf s" "running s"
  obtains n l where "loops s = replicate n Finished @ [l]" "\<not> finished l"
proof -
  from assms have a: "loops s \<noteq> []" "list_all finished (butlast (loops s))"
      "\<not> finished (last (loops s))"
    by (simp_all add: wf_def)
  have "\<forall>x\<in>set (butlast (loops s)). x = Finished"
  proof
    fix x assume "x \<in> set (butlast (loops s))"
    with a(2) have "finished x" by (simp add: list_all_iff)
    then show "x = Finished" by (cases x) simp_all
  qed
  then have "replicate (length (butlast (loops s))) Finished = butlast (loops s)"
    by (rule replicate_length_same)
  with a(1) have "loops s = replicate (length (butlast (loops s))) Finished @ [last (loops s)]"
    by (metis append_butlast_last_id)
  with a(3) show ?thesis using that by blast
qed

lemma wf_idle_form:
  assumes "wf s" "\<not> running s"
  shows "loops s = replicate (length (loops s)) Finished" "queue s = []"
proof -
  from assms have a: "list_all finished (loops s)" "queue s = []"
    by (simp_all add: wf_def)
  have "\<forall>x\<in>set (loops s). x = Finished"
  proof
    fix x assume "x \<in> set (loops s)"
    with a(1) have "finished x" by (simp add: list_all_iff)
    then show "x = Finished" by (cases x) simp_all
  qed
  then have "replicate (length (loops s)) Finished = loops s"
    by (rule replicate_length_same)
  then show "loops s = replicate (length (loops s)) Finished" by simp
  show "queue s = []" by (rule a(2))
qed

lemma inflight_replicate [simp]:
  "filter (\<lambda>l. \<not> finished l) (replicate n Finished) = []"
  by (induction n) auto

lemma suspended_form:
  "loops s = replicate n Finished @ [l] \<Longrightarrow>
   suspended s i = (if i = n then l else Finished)"
  by (auto simp: suspended_def nth_append)

lemma suspended_idle:
  "loops s = replicate n Finished \<Longrightarrow> suspended s i = Finished"
  by (auto simp: suspended_def)

subsection \<open>A single drain loop\<close>

text \<open>
  Claim C3. In every state the queue can reach from its initial state, at most one
  activation of the drain loop is in flight. While the flag \<open>running\<close> is set there is
  exactly one, and \<open>enqueue\<close> only appends the task: no activation is added and
  nothing else changes. While the flag is clear there is none and the queue is empty;
  \<open>enqueue\<close> then sets the flag within the same uninterrupted step that starts the
  one activation, which is suspended at the first \<open>await\<close> of the loop. The flag goes
  from set to clear in exactly one kind of step: the loop comes back to its
  \<open>while\<close> test after a success and finds the queue empty.
\<close>

theorem single_drain_loop:
  assumes "exec init es = Some s"
  shows "length (inflight s) \<le> 1 \<and>
    (if running s
     then length (inflight s) = 1 \<and> enqueue t s = s\<lparr>queue := queue s @ [t]\<rparr>
     else inflight s = [] \<and> queue s = [] \<and>
          running (enqueue t s) \<and> inflight (enqueue t s) = [AwaitTask t 1000]) \<and>
    (\<forall>e s'. step s e = Some s' \<longrightarrow>
       (running s \<and> \<not> running s') =
       (\<exists>i. e = Resume i \<and> suspended s i = AwaitClear \<and> queue s = []))"
proof -
  have w: "wf s" using wf_exec[OF wf_init assms] .
  show ?thesis
  proof (cases "running s")
    case True
    from wf_running_form[OF w True] obtain n l
      where f: "loops s = replicate n Finished @ [l]" "\<not> finished l" by blast
    have 1: "length (inflight s) = 1" using f by (simp add: inflight_def)
    have 2: "enqueue t s = s\<lparr>queue := queue s @ [t]\<rparr>"
      using True by (simp add: enqueue_def run_def)
    have 3: "(running s \<and> \<not> running s') =
       (\<exists>i. e = Resume i \<and> suspended s i = AwaitClear \<and> queue s = [])"
      if "step s e = Some s'" for e s'
    proof (cases e)
      case (Enqueue u)
      with that True show ?thesis by (auto simp: enqueue_def run_def)
    next
      case (Resolve i)
      with that True show ?thesis
        by (auto simp: clearError_def split: loop.splits option.splits)
    next
      case (Reject i m)
      with that True show ?thesis
        by (auto simp: showError_def split: loop.splits option.splits)
    next
      case (Resume i)
      with that True show ?thesis
        by (auto simp: run_while_def split: loop.splits list.splits)
    next
      case (Timeout i)
      with that True show ?thesis
        by (auto split: loop.splits)
    qed
    from True 1 2 3 show ?thesis by simp
  next
    case False
    from wf_idle_form[OF w False]
    have f: "loops s = replicate (length (loops s)) Finished" "queue s = []" .
    have 1: "inflight s = []"
      unfolding inflight_def by (subst f(1)) simp
    have 2: "running (enqueue t s)" "inflight (enqueue t s) = [AwaitTask t 1000]"
      using False f(2) 1 by (simp_all add: enqueue_def run_def run_while_def inflight_def)
    have 3: "suspended s i \<noteq> AwaitClear" for i
      using suspended_idle[OF f(1), of i] by simp
    from False 1 2 3 f(2) show ?thesis by simp
  qed
qed

theorem single_drain_loop_witness:
  "exec init [Enqueue (1::nat), Enqueue 2] =
     Some \<lparr>queue = [2], running = True, errorItem = None,
           loops = [AwaitTask 1 1000], trace = [Attempt 1]\<rparr> \<and>
   enqueue 3 \<lparr>queue = [2], running = True, errorItem = None,
           loops = [AwaitTask (1::nat) 1000], trace = [Attempt 1]\<rparr> =
     \<lparr>queue = [2, 3], running = True, errorItem = None,
           loops = [AwaitTask 1 1000], trace = [Attempt 1]\<rparr> \<and>
   exec init [Enqueue (1::nat), Resolve 0] =
     Some \<lparr>queue = [], running = True, errorItem = None,
           loops = [AwaitClear], trace = [Attempt 1, Success 1]\<rparr> \<and>
   (\<exists>i. Resume 0 = (Resume i :: nat event) \<and>
     suspended \<lparr>queue = [], running = True, errorItem = None,
           loops = [AwaitClear], trace = [Attempt (1::nat), Success 1]\<rparr> i = AwaitClear) \<and>
   exec init [Enqueue (1::nat), Resolve 0, Resume 0] =
     Some \<lparr>queue = [], running = False, errorItem = None,
           loops = [Finished], trace = [Attempt 1, Success 1]\<rparr> \<and>
   inflight (enqueue 3 \<lparr>queue = [], running = False, errorItem = None,
           loops = [Finished], trace = [Attempt (1::nat), Success 1]\<rparr>) = [AwaitTask 3 1000]"
proof -
  let ?a = "\<lparr>queue = [2], running = True, errorItem = None,
           loops = [AwaitTask (1::nat) 1000], trace = [Attempt 1]\<rparr>"
  let ?b = "\<lparr>queue = [], running = True, errorItem = None,
           loops = [AwaitClear], trace = [Attempt (1::nat), Success 1]\<rparr>"
  let ?c = "\<lparr>queue = [], running = False, errorItem = None,
           loops = [Finished], trace = [Attempt (1::nat), Success 1]\<rparr>"
  have a: "exec init [Enqueue (1::nat), Enqueue 2] = Some ?a"
    by (simp add: init_def enqueue_def run_def run_while_def)
  have b: "exec init [Enqueue (1::nat), Resolve 0] = Some ?b"
    by (simp add: init_def enqueue_def run_def run_while_def suspended_def clearError_def)
  have c: "exec init [Enqueue (1::nat), Resolve 0, Resume 0] = Some ?c"
    by (simp add: init_def enqueue_def run_def run_while_def suspended_def clearError_def)
  have bc: "step ?b (Resume 0) = Some ?c"
    by (simp add: run_while_def suspended_def)
  from single_drain_loop[OF a, of 3] have 1: "enqueue 3 ?a = ?a\<lparr>queue := queue ?a @ [3]\<rparr>"
    by simp
  from single_drain_loop[OF b, of 3] bc
  have 2: "\<exists>i. Resume 0 = (Resume i :: nat event) \<and> suspended ?b i = AwaitClear"
    by (metis retry_queue.select_convs(2))
  from single_drain_loop[OF c, of 3] have 3: "inflight (enqueue 3 ?c) = [AwaitTask 3 1000]"
    by simp
  from a b c 1 2 3 show ?thesis by simp
qed


subsection \<open>The steps of a well-formed state\<close>

lemma clearError_sel [simp]:
  "queue (clearError s) = queue s" "running (clearError s) = running s"
  "loops (clearError s) = loops s" "trace (clearError s) = trace s"
  by (simp_all add: clearError_def split: option.splits prod.splits)

lemma showError_sel [simp]:
  "queue (showError m s) = queue s" "running (showError m s) = running s"
  "loops (showError m s) = loops s" "trace (showError m s) = trace s"
  by (simp_all add: showError_def split: option.splits)

lemma upd_form [simp]: "(replicate n a @ [l])[n := l'] = replicate n a @ [l']"
  by (simp add: list_update_append)

lemma step_elim [consumes 2, case_names append start resolve reject drained advance sleep retry]:
  assumes "wf s" "step s e = Some s'"
  obtains
    (append) t where "e = Enqueue t" "running s" "s' = s\<lparr>queue := queue s @ [t]\<rparr>"
  | (start) t n where "e = Enqueue t" "\<not> running s" "queue s = []"
      "loops s = replicate n Finished"
      "s' = s\<lparr>running := True, queue := [], loops := loops s @ [AwaitTask t 1000],
                trace := trace s @ [Attempt t]\<rparr>"
  | (resolve) n t d where "e = Resolve n" "running s"
      "loops s = replicate n Finished @ [AwaitTask t d]"
      "s' = clearError (s\<lparr>loops := replicate n Finished @ [AwaitClear],
                           trace := trace s @ [Success t]\<rparr>)"
  | (reject) n t d m where "e = Reject n m" "running s"
      "loops s = replicate n Finished @ [AwaitTask t d]"
      "s' = showError m (s\<lparr>loops := replicate n Finished @ [AwaitShow t d],
                            trace := trace s @ [Failure t]\<rparr>)"
  | (drained) n where "e = Resume n" "running s"
      "loops s = replicate n Finished @ [AwaitClear]" "queue s = []"
      "s' = s\<lparr>running := False, loops := replicate n Finished @ [Finished]\<rparr>"
  | (advance) n t q where "e = Resume n" "running s"
      "loops s = replicate n Finished @ [AwaitClear]" "queue s = t # q"
      "s' = s\<lparr>queue := q, loops := replicate n Finished @ [AwaitTask t 1000],
                trace := trace s @ [Attempt t]\<rparr>"
  | (sleep) n t d where "e = Resume n" "running s"
      "loops s = replicate n Finished @ [AwaitShow t d]"
      "s' = s\<lparr>loops := replicate n Finished @ [AwaitTimer t d], trace := trace s @ [Wait d]\<rparr>"
  | (retry) n t d where "e = Timeout n" "running s"
      "loops s = replicate n Finished @ [AwaitTimer t d]"
      "s' = s\<lparr>loops := replicate n Finished @ [AwaitTask t (min (d * 2) 30000)],
                trace := trace s @ [Attempt t]\<rparr>"
proof (cases "running s")
  case False
  from wf_idle_form[OF assms(1) False]
  have f: "loops s = replicate (length (loops s)) Finished" "queue s = []" .
  have susp: "suspended s i = Finished" for i by (rule suspended_idle[OF f(1)])
  show ?thesis
  proof (cases e)
    case (Enqueue t)
    have "s' = s\<lparr>running := True, queue := [], loops := loops s @ [AwaitTask t 1000],
                trace := trace s @ [Attempt t]\<rparr>"
      using assms(2) Enqueue False f(2)
      by (auto simp: enqueue_def run_def run_while_def)
    with Enqueue False f show ?thesis using start by blast
  qed (use assms(2) susp in \<open>simp_all\<close>)
next
  case True
  from wf_running_form[OF assms(1) True] obtain n l
    where f: "loops s = replicate n Finished @ [l]" "\<not> finished l" by blast
  have susp: "suspended s i = (if i = n then l else Finished)" for i
    by (rule suspended_form[OF f(1)])
  show ?thesis
  proof (cases e)
    case (Enqueue t)
    with assms(2) True have "s' = s\<lparr>queue := queue s @ [t]\<rparr>"
      by (simp add: enqueue_def run_def)
    with Enqueue True show ?thesis using append by blast
  next
    case (Resolve i)
    with assms(2) susp[of i] obtain t d where "i = n" "l = AwaitTask t d"
      by (auto split: loop.splits if_splits)
    with assms(2) Resolve f True susp[of n] show ?thesis
      using resolve[of n t d] by simp
  next
    case (Reject i m)
    with assms(2) susp[of i] obtain t d where "i = n" "l = AwaitTask t d"
      by (auto split: loop.splits if_splits)
    with assms(2) Reject f True susp[of n] show ?thesis
      using reject[of n m t d] by simp
  next
    case (Resume i)
    with assms(2) susp[of i] f(2) have i: "i = n"
      by (auto split: loop.splits if_splits)
    show ?thesis
    proof (cases l)
      case AwaitClear
      show ?thesis
      proof (cases "queue s")
        case Nil
        with assms(2) Resume i AwaitClear f True susp[of n] show ?thesis
          using drained[of n] by (simp add: run_while_def)
      next
        case (Cons t q)
        with assms(2) Resume i AwaitClear f True susp[of n] show ?thesis
          using advance[of n t q] by (simp add: run_while_def)
      qed
    next
      case (AwaitShow t d)
      with assms(2) Resume i f True susp[of n] show ?thesis
        using sleep[of n t d] by simp
    qed (use assms(2) Resume i susp[of n] f(2) in \<open>simp_all\<close>)
  next
    case (Timeout i)
    with assms(2) susp[of i] obtain t d where "i = n" "l = AwaitTimer t d"
      by (auto split: loop.splits if_splits)
    with assms(2) Timeout f True susp[of n] show ?thesis
      using retry[of n t d] by simp
  qed
qed

lemma current_form: "loops s = replicate n Finished @ [l] \<Longrightarrow> current s = holds l"
  by (simp add: current_def)

lemma current_idle: "loops s = replicate n Finished \<Longrightarrow> current s = []"
  by (simp add: current_def)

lemma completed_snoc [simp]:
  "completed (tr @ [Success t]) = completed tr @ [t]"
  "completed (tr @ [Attempt t]) = completed tr"
  "completed (tr @ [Failure t]) = completed tr"
  "completed (tr @ [Wait d]) = completed tr"
  by (induction tr rule: completed.induct) simp_all

lemma enqueued_append: "enqueued (es @ fs) = enqueued es @ enqueued fs"
  by (induction es rule: enqueued.induct) simp_all

lemma attempt_count_snoc [simp]:
  "attempt_count k (tr @ [Success t]) = 0"
  "attempt_count k (tr @ [Attempt t]) = Suc (attempt_count k tr)"
  "attempt_count k (tr @ [Failure t]) = attempt_count k tr"
  "attempt_count k (tr @ [Wait d]) = attempt_count k tr"
  by (induction k tr rule: attempt_count.induct) simp_all

lemma step_pending:
  assumes "wf s" "step s e = Some s'"
  shows "completed (trace s') @ current s' @ queue s' =
         completed (trace s) @ current s @ queue s @ enqueued [e]"
  using assms
  by (cases rule: step_elim) (simp_all add: current_def)

lemma exec_pending:
  "wf s \<Longrightarrow> exec s es = Some s' \<Longrightarrow>
   completed (trace s') @ current s' @ queue s' =
   completed (trace s) @ current s @ queue s @ enqueued es"
proof (induction es arbitrary: s)
  case Nil
  then show ?case by simp
next
  case (Cons e es)
  from Cons.prems(2) obtain s1 where s1: "step s e = Some s1" "exec s1 es = Some s'"
    by (auto split: option.splits)
  from wf_step[OF Cons.prems(1) s1(1)] have "wf s1" .
  from Cons.IH[OF this s1(2)] step_pending[OF Cons.prems(1) s1(1)]
  show ?case using enqueued_append[of "[e]" es] by simp
qed

lemma step_trace:
  assumes "wf s" "step s e = Some s'"
  shows "trace s' = trace s \<or>
         (\<exists>ob. trace s' = trace s @ [ob] \<and> (\<forall>x. ob = Attempt x \<longrightarrow> current s' = [x]))"
  using assms
  by (cases rule: step_elim) (simp_all add: current_def)

lemma snoc_split:
  assumes "xs @ [ob] = pre @ y # post"
  shows "(post = [] \<and> pre = xs \<and> ob = y) \<or> (\<exists>post'. post = post' @ [ob] \<and> xs = pre @ y # post')"
proof (cases post rule: rev_cases)
  case Nil
  with assms show ?thesis by simp
next
  case (snoc post' z)
  with assms have "xs @ [ob] = (pre @ y # post') @ [z]" by simp
  then have "xs = pre @ y # post'" "ob = z" by (simp_all only: append1_eq_conv)
  with snoc show ?thesis by simp
qed

lemma attempts_in_order:
  "exec init es = Some s \<Longrightarrow> trace s = pre @ Attempt x # post \<Longrightarrow>
   prefix (completed pre @ [x]) (enqueued es)"
proof (induction es arbitrary: s pre x post rule: rev_induct)
  case Nil
  then show ?case by (auto simp: init_def)
next
  case (snoc e es)
  from snoc.prems(1) obtain s0 where s0: "exec init es = Some s0" "step s0 e = Some s"
    by (auto simp: exec_snoc split: option.splits)
  have w0: "wf s0" using wf_exec[OF wf_init s0(1)] .
  have old: "prefix (completed pre @ [x]) (enqueued (es @ [e]))"
    if "trace s0 = pre @ Attempt x # post'" for post'
    using snoc.IH[OF s0(1) that] by (simp add: enqueued_append)
  from step_trace[OF w0 s0(2)] show ?case
  proof
    assume "trace s = trace s0"
    with snoc.prems(2) show ?thesis using old by simp
  next
    assume "\<exists>ob. trace s = trace s0 @ [ob] \<and> (\<forall>x. ob = Attempt x \<longrightarrow> current s = [x])"
    then obtain ob where ob: "trace s = trace s0 @ [ob]" "\<And>x. ob = Attempt x \<Longrightarrow> current s = [x]"
      by blast
    from ob(1) snoc.prems(2) have "trace s0 @ [ob] = pre @ Attempt x # post" by simp
    from snoc_split[OF this] show ?thesis
    proof
      assume a: "post = [] \<and> pre = trace s0 \<and> ob = Attempt x"
      with ob have c: "current s = [x]" "completed (trace s) = completed pre" by simp_all
      from exec_pending[OF wf_init snoc.prems(1)] c
      have "enqueued (es @ [e]) = (completed pre @ [x]) @ queue s"
        by (simp add: init_def current_def)
      then show ?thesis by (simp only: prefixI)
    next
      assume "\<exists>post'. post = post' @ [ob] \<and> trace s0 = pre @ Attempt x # post'"
      then show ?thesis using old by blast
    qed
  qed
qed

lemma current_le1:
  assumes "wf s" shows "length (current s) \<le> 1"
proof (cases "running s")
  case True
  from wf_running_form[OF assms True] obtain n l
    where f: "loops s = replicate n Finished @ [l]" by blast
  show ?thesis unfolding current_form[OF f] by (cases l) simp_all
next
  case False
  from wf_idle_form(1)[OF assms False] have "current s = []" by (rule current_idle)
  then show ?thesis by simp
qed


lemma backoff_double:
  "min (min (1000 * 2 ^ k) 30000 * 2) 30000 = min (1000 * 2 ^ Suc k) (30000::nat)"
  by (simp add: min_def)

lemma backoff_inv_init: "backoff_inv init"
  by (simp add: backoff_inv_def init_def)

lemma list_all_delay_ok_form [simp]:
  "list_all (delay_ok c) (replicate n Finished @ [l]) = delay_ok c l"
  by (induction n) simp_all

lemma list_all_delay_ok_idle [simp]:
  "list_all (delay_ok c) (replicate n Finished)"
  by (induction n) simp_all

lemma backoff_inv_step:
  assumes "wf s" "step s e = Some s'" "backoff_inv s"
  shows "backoff_inv s'"
  using assms(1,2)
proof (cases rule: step_elim)
  case (retry n t d)
  with assms(3) obtain k where "attempt_count 0 (trace s) = Suc k" "d = min (1000 * 2 ^ k) 30000"
    by (cases "attempt_count 0 (trace s)") (auto simp: backoff_inv_def)
  with retry show ?thesis
    by (simp add: backoff_inv_def backoff_double)
qed (use assms(3) in \<open>auto simp: backoff_inv_def\<close>)

lemma backoff_inv_exec:
  "wf s \<Longrightarrow> backoff_inv s \<Longrightarrow> exec s es = Some s' \<Longrightarrow> backoff_inv s'"
proof (induction es arbitrary: s)
  case Nil
  then show ?case by simp
next
  case (Cons e es)
  from Cons.prems(3) obtain s1 where s1: "step s e = Some s1" "exec s1 es = Some s'"
    by (auto split: option.splits)
  from Cons.IH[OF wf_step[OF Cons.prems(1) s1(1)] backoff_inv_step[OF Cons.prems(1) s1(1) Cons.prems(2)] s1(2)]
  show ?case .
qed

lemma step_wait:
  assumes "wf s" "step s e = Some s'" "backoff_inv s"
  shows "trace s' = trace s \<or>
         (\<exists>ob. trace s' = trace s @ [ob] \<and>
            (\<forall>d. ob = Wait d \<longrightarrow> 0 < attempt_count 0 (trace s) \<and>
                 d = min (1000 * 2 ^ (attempt_count 0 (trace s) - 1)) 30000))"
  using assms(1,2)
  by (cases rule: step_elim) (use assms(3) in \<open>auto simp: backoff_inv_def\<close>)

lemma waits_follow_backoff:
  "exec init es = Some s \<Longrightarrow> trace s = pre @ Wait d # post \<Longrightarrow>
   0 < attempt_count 0 pre \<and> d = min (1000 * 2 ^ (attempt_count 0 pre - 1)) 30000"
proof (induction es arbitrary: s pre d post rule: rev_induct)
  case Nil
  then show ?case by (auto simp: init_def)
next
  case (snoc e es)
  from snoc.prems(1) obtain s0 where s0: "exec init es = Some s0" "step s0 e = Some s"
    by (auto simp: exec_snoc split: option.splits)
  have w0: "wf s0" using wf_exec[OF wf_init s0(1)] .
  have b0: "backoff_inv s0" using backoff_inv_exec[OF wf_init backoff_inv_init s0(1)] .
  from step_wait[OF w0 s0(2) b0] show ?case
  proof
    assume "trace s = trace s0"
    with snoc.prems(2) show ?thesis using snoc.IH[OF s0(1)] by simp
  next
    assume "\<exists>ob. trace s = trace s0 @ [ob] \<and>
            (\<forall>d. ob = Wait d \<longrightarrow> 0 < attempt_count 0 (trace s0) \<and>
                 d = min (1000 * 2 ^ (attempt_count 0 (trace s0) - 1)) 30000)"
    then obtain ob where ob: "trace s = trace s0 @ [ob]"
      "\<And>d. ob = Wait d \<Longrightarrow> 0 < attempt_count 0 (trace s0) \<and>
                 d = min (1000 * 2 ^ (attempt_count 0 (trace s0) - 1)) 30000"
      by blast
    from ob(1) snoc.prems(2) have "trace s0 @ [ob] = pre @ Wait d # post" by simp
    from snoc_split[OF this] show ?thesis
    proof
      assume "post = [] \<and> pre = trace s0 \<and> ob = Wait d"
      then show ?thesis using ob(2) by blast
    next
      assume "\<exists>post'. post = post' @ [ob] \<and> trace s0 = pre @ Wait d # post'"
      then show ?thesis using snoc.IH[OF s0(1)] by blast
    qed
  qed
qed


subsection \<open>Strict FIFO order\<close>

text \<open>
  Claim C1. Take any run of the queue from its initial state, with enqueues arriving
  at any moment. The tasks that have succeeded, then the task in flight (at most
  one), then the tasks still queued are exactly the tasks enqueued, in enqueue order:
  no task is dropped, skipped or overtaken. Whenever a task is called, the tasks that
  succeeded before that call followed by the called task are an initial segment of
  the enqueue order: a task is only ever called when every task enqueued before it
  has succeeded, so while the head is retrying no later task runs.
\<close>

theorem fifo_order:
  assumes "exec init es = Some s"
  shows "completed (trace s) @ current s @ queue s = enqueued es \<and>
         length (current s) \<le> 1 \<and>
         (\<forall>pre x post. trace s = pre @ Attempt x # post \<longrightarrow>
            prefix (completed pre @ [x]) (enqueued es))"
proof -
  have "completed (trace s) @ current s @ queue s = enqueued es"
    using exec_pending[OF wf_init assms] by (simp add: init_def current_def)
  moreover have "length (current s) \<le> 1"
    using wf_exec[OF wf_init assms] by (rule current_le1)
  moreover have "\<forall>pre x post. trace s = pre @ Attempt x # post \<longrightarrow>
            prefix (completed pre @ [x]) (enqueued es)"
    using attempts_in_order[OF assms] by blast
  ultimately show ?thesis by blast
qed

theorem fifo_order_witness:
  "exec init [Enqueue (1::nat), Enqueue 2, Reject 0 ''net'', Resume 0, Timeout 0,
              Resolve 0, Resume 0] =
     Some \<lparr>queue = [], running = True, errorItem = Some (''net'', False),
           loops = [AwaitTask 2 1000],
           trace = [Attempt 1, Failure 1, Wait 1000, Attempt 1, Success 1, Attempt 2]\<rparr> \<and>
   prefix (completed [Attempt (1::nat), Failure 1, Wait 1000] @ [1]) [1, 2] \<and>
   prefix (completed [Attempt (1::nat), Failure 1, Wait 1000, Attempt 1, Success 1] @ [2]) [1, 2]"
proof -
  let ?es = "[Enqueue (1::nat), Enqueue 2, Reject 0 ''net'', Resume 0, Timeout 0,
              Resolve 0, Resume 0]"
  let ?s = "\<lparr>queue = [], running = True, errorItem = Some (''net'', False),
           loops = [AwaitTask (2::nat) 1000],
           trace = [Attempt 1, Failure 1, Wait 1000, Attempt 1, Success 1, Attempt 2]\<rparr>"
  have h: "exec init ?es = Some ?s"
    by (simp add: init_def enqueue_def run_def run_while_def suspended_def
        clearError_def showError_def)
  have a: "trace ?s = [Attempt 1, Failure 1, Wait 1000] @ Attempt 1 # [Success 1, Attempt 2]"
    and b: "trace ?s = [Attempt 1, Failure 1, Wait 1000, Attempt 1, Success 1] @ Attempt 2 # []"
    by simp_all
  from fifo_order[OF h]
  have "\<forall>pre x post. trace ?s = pre @ Attempt x # post \<longrightarrow>
          prefix (completed pre @ [x]) (enqueued ?es)" by blast
  with a b have "prefix (completed [Attempt (1::nat), Failure 1, Wait 1000] @ [1]) (enqueued ?es)"
    "prefix (completed [Attempt (1::nat), Failure 1, Wait 1000, Attempt 1, Success 1] @ [2])
       (enqueued ?es)"
    by blast+
  with h show ?thesis by simp
qed

subsection \<open>Exponential backoff\<close>

text \<open>
  Claim C2. In any run of the queue, every \<open>setTimeout\<close> of the retry loop that
  follows the \<open>(i+1)\<close>-th call of a task (\<open>i\<close> failed attempts before it, counted from
  0) waits \<open>min (1000 * 2 ^ i) 30000\<close> milliseconds, hence never more than 30000;
  the \<open>delay\<close> of an activation awaiting its task follows the same formula, and on
  the first call of the task that follows a success it is 1000 again.
\<close>

theorem backoff_schedule:
  assumes "exec init es = Some s"
  shows "(\<forall>pre d post. trace s = pre @ Wait d # post \<longrightarrow>
           (\<exists>i. attempt_count 0 pre = Suc i \<and> d = min (1000 * 2 ^ i) 30000) \<and> d \<le> 30000) \<and>
         (\<forall>j t d. suspended s j = AwaitTask t d \<longrightarrow>
           (\<exists>i. attempt_count 0 (trace s) = Suc i \<and> d = min (1000 * 2 ^ i) 30000)) \<and>
         (\<forall>j t d pre u. suspended s j = AwaitTask t d \<and> trace s = pre @ [Success u, Attempt t] \<longrightarrow>
           d = 1000)"
proof -
  have w: "wf s" using wf_exec[OF wf_init assms] .
  have b: "backoff_inv s" using backoff_inv_exec[OF wf_init backoff_inv_init assms] .
  have 1: "(\<exists>i. attempt_count 0 pre = Suc i \<and> d = min (1000 * 2 ^ i) 30000) \<and> d \<le> 30000"
    if "trace s = pre @ Wait d # post" for pre d post
  proof -
    from waits_follow_backoff[OF assms that]
    have c: "0 < attempt_count 0 pre" "d = min (1000 * 2 ^ (attempt_count 0 pre - 1)) 30000"
      by simp_all
    then obtain i where "attempt_count 0 pre = Suc i" by (cases "attempt_count 0 pre") auto
    with c show ?thesis by auto
  qed
  have 2: "\<exists>i. attempt_count 0 (trace s) = Suc i \<and> d = min (1000 * 2 ^ i) 30000"
    if "suspended s j = AwaitTask t d" for j t d
  proof -
    from that have "AwaitTask t d \<in> set (loops s)"
      by (auto simp: suspended_def split: if_splits dest: nth_mem)
    with b have "delay_ok (attempt_count 0 (trace s)) (AwaitTask t d)"
      unfolding backoff_inv_def list_all_iff by blast
    then show ?thesis by (cases "attempt_count 0 (trace s)") auto
  qed
  have 3: "d = 1000"
    if "suspended s j = AwaitTask t d \<and> trace s = pre @ [Success u, Attempt t]" for j t d pre u
  proof -
    from that have "attempt_count 0 (trace s) = 1"
      using attempt_count_snoc(1,2)[of 0 "pre @ [Success u]" ] attempt_count_snoc(1)[of 0 pre u]
      by simp
    with 2[of j t d] that show ?thesis by simp
  qed
  from 1 2 3 show ?thesis by blast
qed

theorem backoff_schedule_witness:
  "exec init ([Enqueue (7::nat), Enqueue 8] @
              concat (replicate 6 [Reject 0 ''HTTP 503'', Resume 0, Timeout 0]) @
              [Resolve 0, Resume 0]) =
     Some \<lparr>queue = [], running = True, errorItem = Some (''HTTP 503'', False),
           loops = [AwaitTask 8 1000],
           trace =
             [Attempt 7, Failure 7, Wait 1000, Attempt 7, Failure 7, Wait 2000,
              Attempt 7, Failure 7, Wait 4000, Attempt 7, Failure 7, Wait 8000,
              Attempt 7, Failure 7, Wait 16000, Attempt 7, Failure 7, Wait 30000,
              Attempt 7, Success 7, Attempt 8]\<rparr> \<and>
   attempt_count 0
     [Attempt (7::nat), Failure 7, Wait 1000, Attempt 7, Failure 7, Wait 2000,
      Attempt 7, Failure 7, Wait 4000, Attempt 7, Failure 7, Wait 8000,
      Attempt 7, Failure 7, Wait 16000, Attempt 7, Failure 7] = Suc 5 \<and>
   (30000::nat) = min (1000 * 2 ^ 5) 30000"
proof -
  let ?es = "[Enqueue (7::nat), Enqueue 8] @
              concat (replicate 6 [Reject 0 ''HTTP 503'', Resume 0, Timeout 0]) @
              [Resolve 0, Resume 0]"
  let ?pre = "[Attempt (7::nat), Failure 7, Wait 1000, Attempt 7, Failure 7, Wait 2000,
      Attempt 7, Failure 7, Wait 4000, Attempt 7, Failure 7, Wait 8000,
      Attempt 7, Failure 7, Wait 16000, Attempt 7, Failure 7]"
  let ?s = "\<lparr>queue = [], running = True, errorItem = Some (''HTTP 503'', False),
           loops = [AwaitTask (8::nat) 1000],
           trace = ?pre @ Wait 30000 # [Attempt 7, Success 7, Attempt 8]\<rparr>"
  have six: "replicate 6 x = [x, x, x, x, x, x]" for x :: "nat event list"
    by (simp add: numeral_eq_Suc)
  have h: "exec init ?es = Some ?s"
    by (simp add: six init_def enqueue_def run_def run_while_def suspended_def
        clearError_def showError_def)
  have t: "trace ?s = ?pre @ Wait 30000 # [Attempt 7, Success 7, Attempt 8]" by simp
  from backoff_schedule[OF h] t
  have "\<exists>i. attempt_count 0 ?pre = Suc i \<and> (30000::nat) = min (1000 * 2 ^ i) 30000"
    by blast
  then have "attempt_count 0 ?pre = Suc 5 \<and> (30000::nat) = min (1000 * 2 ^ 5) 30000"
    by simp
  with h show ?thesis by simp
qed

section \<open>Properties of the Change Capture Engine\<close>

subsection \<open>Relative paths\<close>

lemma split_where_nonempty [simp]: "split_where P xs \<noteq> []"
  by (induction xs) (auto split: list.splits)

lemma split_where_append:
  "P c \<Longrightarrow> split_where P (xs @ c # ys) = split_where P xs @ split_where P ys"
  by (induction xs) (auto split: list.splits)

lemma split_where_free: "\<forall>c\<in>set w. \<not> P c \<Longrightarrow> split_where P w = [w]"
  by (induction w) (auto split: list.splits)

lemma split_where_join:
  "P c \<Longrightarrow> ws \<noteq> [] \<Longrightarrow> \<forall>w\<in>set ws. \<forall>x\<in>set w. \<not> P x \<Longrightarrow>
   split_where P (join_with c ws) = ws"
proof (induction c ws rule: join_with.induct)
  case (1 c)
  then show ?case by simp
next
  case (2 c w)
  then show ?case by (simp add: split_where_free)
next
  case (3 c w v ws)
  then show ?case by (simp add: split_where_append split_where_free)
qed

lemma is_sep_sep: "is_sep pf (sep pf)"
  by (cases pf) (simp_all add: is_sep_def sep_def)

lemma filter_nonempty_id: "\<forall>w\<in>set ws. w \<noteq> [] \<Longrightarrow> filter (\<lambda>w. w \<noteq> []) ws = ws"
  by (induction ws) auto

lemma segments_below:
  assumes "segs \<noteq> []" "\<forall>w\<in>set segs. w \<noteq> [] \<and> (\<forall>x\<in>set w. \<not> is_sep pf x)"
  shows "segments pf (root @ sep pf # join_with (sep pf) segs) = segments pf root @ segs"
proof -
  have "split_where (is_sep pf) (join_with (sep pf) segs) = segs"
    using assms by (intro split_where_join[of "is_sep pf" "sep pf"] is_sep_sep) auto
  then have "segments pf (root @ sep pf # join_with (sep pf) segs) =
        segments pf root @ filter (\<lambda>w. w \<noteq> []) segs"
    by (simp add: segments_def split_where_append[of "is_sep pf" "sep pf", OF is_sep_sep])
  also have "filter (\<lambda>w. w \<noteq> []) segs = segs"
    using assms(2) by (simp add: filter_nonempty_id)
  finally show ?thesis .
qed

lemma foldl_resolve_plain:
  "\<forall>w\<in>set segs. w \<noteq> ''.'' \<and> w \<noteq> ''..'' \<Longrightarrow> foldl resolve_dots acc segs = acc @ segs"
  by (induction segs arbitrary: acc) (simp_all add: resolve_dots_def)

lemma normalized_below:
  assumes "segs \<noteq> []"
    and "\<forall>w\<in>set segs. w \<noteq> [] \<and> (\<forall>x\<in>set w. \<not> is_sep pf x) \<and> w \<noteq> ''.'' \<and> w \<noteq> ''..''"
  shows "normalized pf (root @ sep pf # join_with (sep pf) segs) = normalized pf root @ segs"
proof -
  have s: "segments pf (root @ sep pf # join_with (sep pf) segs) = segments pf root @ segs"
    using assms by (intro segments_below) auto
  have p: "foldl resolve_dots acc segs = acc @ segs" for acc
    using assms(2) by (simp add: foldl_resolve_plain)
  show ?thesis
  proof (cases pf)
    case Posix
    show ?thesis
      unfolding normalized_def s by (simp add: Posix p)
  next
    case Win32
    note s' = s[unfolded Win32]
    show ?thesis
    proof (cases "segments Win32 root")
      case Nil
      have "take 1 segs @ foldl resolve_dots [] (drop 1 segs) = segs"
        using assms(2) by (cases segs) (simp_all add: foldl_resolve_plain)
      then show ?thesis
        unfolding Win32 normalized_def s' by (simp add: Nil)
    next
      case (Cons d r)
      show ?thesis
        unfolding Win32 normalized_def s' by (simp add: Cons p)
    qed
  qed
qed

lemma same_segment_refl: "same_segment pf a a"
  by (simp add: same_segment_def)

lemma strip_common_prefix: "strip_common (same_segment pf) f (f @ t) = ([], t)"
  by (induction f) (auto simp: same_segment_refl)

lemma path_relative_below:
  assumes "normalized pf root \<noteq> []" "segs \<noteq> []"
    and "\<forall>w\<in>set segs. w \<noteq> [] \<and> (\<forall>x\<in>set w. \<not> is_sep pf x) \<and> w \<noteq> ''.'' \<and> w \<noteq> ''..''"
  shows "path_relative pf root (root @ sep pf # join_with (sep pf) segs) = join_with (sep pf) segs"
proof -
  note s = normalized_below[OF assms(2,3), of root]
  have t: "take 1 (normalized pf root @ segs) = take 1 (normalized pf root)"
    using assms(1) by (cases "normalized pf root") simp_all
  have d: "list_all2 (same_segment pf) (take 1 (normalized pf root)) (take 1 (normalized pf root))"
    by (simp add: list_all2_same same_segment_refl)
  show ?thesis
    unfolding path_relative_def s t using d by (simp add: strip_common_prefix)
qed

lemma to_slashes_join:
  "to_slashes (join_with c ws) =
   join_with (if c = CHR 0x5C then CHR ''/'' else c) (map to_slashes ws)"
  by (induction c ws rule: join_with.induct) (simp_all add: to_slashes_def)

lemma to_slashes_sep: "(if sep pf = CHR 0x5C then CHR ''/'' else sep pf) = CHR ''/''"
  by (cases pf) (simp_all add: sep_def)



lemma rel_path_below:
  assumes "normalized (os h) (fsPath root) \<noteq> []" "segs \<noteq> []"
    and "\<forall>w\<in>set segs. w \<noteq> [] \<and> (\<forall>x\<in>set w. \<not> is_sep (os h) x) \<and> w \<noteq> ''.'' \<and> w \<noteq> ''..''"
    and "fsPath u = fsPath root @ sep (os h) # join_with (sep (os h)) segs"
  shows "rel_path h root u = join_with (CHR ''/'') (map to_slashes segs)"
  using path_relative_below[OF assms(1-3)] assms(4)
  by (simp add: rel_path_def to_slashes_join to_slashes_sep)





lemma below_plain:
  assumes "normalized (os h) (fsPath root) \<noteq> []" "segs \<noteq> []"
    and "\<forall>w\<in>set segs. w \<noteq> [] \<and> (\<forall>x\<in>set w. \<not> is_sep (os h) x) \<and> w \<noteq> ''.'' \<and> w \<noteq> ''..''"
    and "\<forall>w\<in>set segs. CHR 0x5C \<notin> set w"
    and "fsPath u = fsPath root @ sep (os h) # join_with (sep (os h)) segs"
  shows "below h root u \<and> root_relative h root u = join_with (CHR ''/'') segs"
proof -
  have n: "normalized (os h) (fsPath u) = normalized (os h) (fsPath root) @ segs"
    unfolding assms(5) by (rule normalized_below[OF assms(2,3)])
  have "list_all2 (same_segment (os h)) (normalized (os h) (fsPath root))
          (normalized (os h) (fsPath root))"
    by (simp add: list_all2_same same_segment_refl)
  then show ?thesis
    using assms(1,2,4) by (simp add: below_def root_relative_def n list_all_iff)
qed

lemmas path_eval = rel_path_def path_relative_def normalized_def segments_def is_sep_def
  resolve_dots_def same_segment_def sep_def to_slashes_def

lemma rel_posix_file: "rel_path posix_host posix_root posix_file = ''a.txt''"
  by (simp add: path_eval posix_host_def posix_root_def posix_file_def)

subsection \<open>Paths of events\<close>




subsection \<open>A created file: the create event, then its content\<close>

lemma engine_inv_init: "engine_inv root engine_init"
  by (simp add: engine_inv_def engine_init_def)

lemma engine_inv_posted [simp]: "engine_inv root (st\<lparr>posted := b\<rparr>) = engine_inv root st"
  by (simp add: engine_inv_def)

lemma suspended_current:
  assumes "suspended s i = AwaitTask j d"
  shows "j \<in> set (current s)"
proof -
  from assms have "i < length (loops s)" "loops s ! i = AwaitTask j d"
    by (simp_all add: suspended_def split: if_splits)
  then have "AwaitTask j d \<in> set (loops s)" by (metis nth_mem)
  then show ?thesis by (force simp: current_def)
qed

lemma enqueued_snoc [simp]:
  "enqueued (es @ [Enqueue j]) = enqueued es @ [j]"
  "enqueued (es @ [Resolve i]) = enqueued es"
  "enqueued (es @ [Reject i m]) = enqueued es"
  "enqueued (es @ [Resume i]) = enqueued es"
  "enqueued (es @ [Timeout i]) = enqueued es"
  by (simp_all add: enqueued_append)

lemma inflight_enqueued:
  assumes "exec init es = Some s" "suspended s i = AwaitTask j d"
  shows "j \<in> set (enqueued es)"
proof -
  from exec_pending[OF wf_init assms(1)]
  have "enqueued es = completed (trace s) @ current s @ queue s"
    by (simp add: init_def current_def)
  with suspended_current[OF assms(2)] show ?thesis by simp
qed

lemma numbered_nth:
  assumes "map jid js = [0..<length js]" "j \<in> set js"
  shows "jid j < length js \<and> js ! jid j = j"
proof -
  from assms(2) obtain k where k: "k < length js" "js ! k = j"
    by (auto simp: in_set_conv_nth)
  from k(1) have "map jid js ! k = jid (js ! k)" by simp
  with assms(1) k have "jid j = k" by simp
  with k show ?thesis by simp
qed

lemma emit_inv:
  assumes "engine_inv root st" "emit e st = Some st'" "enqueued [e] = []"
  shows "engine_inv root st' \<and> enqueued (history st') = enqueued (history st)"
proof -
  from assms(2) obtain s where s: "step (retryQueue st) e = Some s"
    "st' = st\<lparr>retryQueue := s, history := history st @ [e]\<rparr>"
    by (auto simp: emit_def split: option.splits)
  have q: "enqueued (history st') = enqueued (history st)"
    using s(2) assms(3) by (simp add: enqueued_append)
  have "exec init (history st') = Some (retryQueue st')"
    using assms(1) s by (simp add: engine_inv_def exec_snoc)
  with assms(1) q show ?thesis by (simp add: engine_inv_def)
qed

lemma submit_inv:
  assumes "engine_inv root st"
    and "\<And>m. c = Some m \<Longrightarrow>
           m < length (enqueued (history st)) \<and>
           (\<exists>h u. work (enqueued (history st) ! m) = SendFileSnapshot u \<and>
                  sendFileSnapshot h root u = Some t)"
  shows "engine_inv root (submit c st t) \<and>
         enqueued (history (submit c st t)) =
           enqueued (history st) @ [\<lparr>jid = length (enqueued (history st)), cause = c, work = t\<rparr>] \<and>
         posted (submit c st t) = posted st"
proof -
  let ?js = "enqueued (history st)"
  let ?j = "\<lparr>jid = length ?js, cause = c, work = t\<rparr>"
  let ?st = "submit c st t"
  have h: "history ?st = history st @ [Enqueue ?j]" "retryQueue ?st = enqueue ?j (retryQueue st)"
    "posted ?st = posted st"
    by (simp_all add: submit_def Let_def)
  have e: "enqueued (history ?st) = ?js @ [?j]" by (simp add: h)
  from assms(1) have a: "exec init (history st) = Some (retryQueue st)"
    and b: "map jid ?js = [0..<length ?js]"
    and c: "\<And>x m. x \<in> set ?js \<Longrightarrow> cause x = Some m \<Longrightarrow>
        m < jid x \<and>
        (\<exists>h u. work (?js ! m) = SendFileSnapshot u \<and> sendFileSnapshot h root u = Some (work x))"
    by (simp_all add: engine_inv_def)
  have 1: "exec init (history ?st) = Some (retryQueue ?st)"
    using a by (simp add: h exec_snoc)
  have 2: "map jid (enqueued (history ?st)) = [0..<length (enqueued (history ?st))]"
    using b by (simp add: e)
  have 3: "m < jid x \<and>
        (\<exists>h u. work ((?js @ [?j]) ! m) = SendFileSnapshot u \<and>
               sendFileSnapshot h root u = Some (work x))"
    if x: "x \<in> set (?js @ [?j])" and m: "cause x = Some m" for x m
  proof (cases "x \<in> set ?js")
    case True
    from c[OF True m] numbered_nth[OF b True] have "m < length ?js" by simp
    with c[OF True m] show ?thesis by (simp add: nth_append)
  next
    case False
    with x have xj: "x = ?j" by simp
    with m have cm: "c = Some m" by simp
    from assms(2)[OF cm] xj show ?thesis by (simp add: nth_append)
  qed
  have 4: "\<forall>x \<in> set (enqueued (history ?st)). \<forall>m. cause x = Some m \<longrightarrow>
        m < jid x \<and>
        (\<exists>h u. work (enqueued (history ?st) ! m) = SendFileSnapshot u \<and>
               sendFileSnapshot h root u = Some (work x))"
    unfolding e using 3 by blast
  from 1 2 4 e h(3) show ?thesis unfolding engine_inv_def by blast
qed

lemma handler_inv:
  "engine_inv root st \<Longrightarrow>
   engine_inv root (foldl (submit None) st ts) \<and>
   enqueued (history (foldl (submit None) st ts)) =
     enqueued (history st) @
     map (\<lambda>(k, t). \<lparr>jid = length (enqueued (history st)) + k, cause = None, work = t\<rparr>)
         (zip [0..<length ts] ts) \<and>
   posted (foldl (submit None) st ts) = posted st"
proof (induction ts rule: rev_induct)
  case Nil
  then show ?case by simp
next
  case (snoc t ts)
  let ?st = "foldl (submit None) st ts"
  from snoc have i: "engine_inv root ?st"
    and e: "enqueued (history ?st) =
     enqueued (history st) @
     map (\<lambda>(k, t). \<lparr>jid = length (enqueued (history st)) + k, cause = None, work = t\<rparr>)
         (zip [0..<length ts] ts)"
    and p: "posted ?st = posted st"
    by simp_all
  from submit_inv[OF i, of None t] show ?case
    by (simp add: e p)
qed

lemma react_inv:
  assumes "engine_inv root st" "react root st x = Some st'"
  shows "engine_inv root st' \<and> (\<exists>js. enqueued (history st') = enqueued (history st) @ js)"
proof (cases x)
  case (Handler ts)
  with assms handler_inv[OF assms(1), of ts] show ?thesis by auto
next
  case (Body i h)
  from assms(2) Body obtain j d u where j: "suspended (retryQueue st) i = AwaitTask j d"
    "work j = SendFileSnapshot u" "\<not> posted st"
    by (auto split: loop.splits task.splits if_splits)
  show ?thesis
  proof (cases "sendFileSnapshot h root u")
    case None
    with assms(2) Body j have "emit (Reject i ''readFile'') st = Some st'" by simp
    from emit_inv[OF assms(1) this] show ?thesis by simp
  next
    case (Some p)
    with assms(2) Body j have s: "st' = (submit (Some (jid j)) st p)\<lparr>posted := True\<rparr>" by simp
    from assms(1) have a: "exec init (history st) = Some (retryQueue st)"
      and b: "map jid (enqueued (history st)) = [0..<length (enqueued (history st))]"
      by (simp_all add: engine_inv_def)
    from numbered_nth[OF b inflight_enqueued[OF a j(1)]]
    have n: "jid j < length (enqueued (history st))" "enqueued (history st) ! jid j = j"
      by simp_all
    have "engine_inv root (submit (Some (jid j)) st p) \<and>
         enqueued (history (submit (Some (jid j)) st p)) =
           enqueued (history st) @
           [\<lparr>jid = length (enqueued (history st)), cause = Some (jid j), work = p\<rparr>] \<and>
         posted (submit (Some (jid j)) st p) = posted st"
    proof (rule submit_inv[OF assms(1)])
      fix m
      assume "Some (jid j) = Some m"
      with n j(2) Some
      show "m < length (enqueued (history st)) \<and>
           (\<exists>h u. work (enqueued (history st) ! m) = SendFileSnapshot u \<and>
                  sendFileSnapshot h root u = Some p)"
        by auto
    qed
    with s show ?thesis by simp
  qed
next
  case (Settled i ok)
  from assms(2) Settled consider
    "emit (Resolve i) (st\<lparr>posted := False\<rparr>) = Some st'"
    | "emit (Resolve i) st = Some st'"
    | "emit (Reject i ''HTTP'') st = Some st'"
    by (auto split: loop.splits task.splits if_splits)
  then show ?thesis
  proof cases
    case 1
    have "engine_inv root (st\<lparr>posted := False\<rparr>)"
      using assms(1) by simp
    from emit_inv[OF this 1] show ?thesis by simp
  next
    case 2
    from emit_inv[OF assms(1) this] show ?thesis by simp
  next
    case 3
    from emit_inv[OF assms(1) this] show ?thesis by simp
  qed
next
  case (Shown i)
  with assms(2) have "emit (Resume i) st = Some st'" by simp
  from emit_inv[OF assms(1) this] show ?thesis by simp
next
  case (Fired i)
  with assms(2) have "emit (Timeout i) st = Some st'" by simp
  from emit_inv[OF assms(1) this] show ?thesis by simp
qed

lemma engine_run_inv:
  "engine_inv root st \<Longrightarrow> engine_run root st xs = Some st' \<Longrightarrow>
   engine_inv root st' \<and> (\<exists>js. enqueued (history st') = enqueued (history st) @ js)"
proof (induction xs arbitrary: st)
  case Nil
  then show ?case by simp
next
  case (Cons x xs)
  from Cons.prems(2) obtain st1 where s: "react root st x = Some st1"
    "engine_run root st1 xs = Some st'"
    by (auto split: option.splits)
  from react_inv[OF Cons.prems(1) s(1)] Cons.IH[OF _ s(2)] show ?case by auto
qed

lemma completed_mem: "t \<in> set (completed tr) \<longleftrightarrow> Success t \<in> set tr"
  by (induction tr rule: completed.induct) auto

lemma attempt_position:
  assumes "engine_inv root st" "trace (retryQueue st) = pre @ Attempt x # post"
  shows "jid x = length (completed pre) \<and>
         (\<exists>js. enqueued (history st) = completed pre @ x # js)"
proof -
  from assms(1) have a: "exec init (history st) = Some (retryQueue st)"
    and b: "map jid (enqueued (history st)) = [0..<length (enqueued (history st))]"
    by (simp_all add: engine_inv_def)
  from attempts_in_order[OF a assms(2)]
  obtain js where js: "enqueued (history st) = completed pre @ x # js"
    by (auto simp: prefix_def)
  let ?k = "length (completed pre)"
  have k: "?k < length (enqueued (history st))" "enqueued (history st) ! ?k = x"
    by (simp_all add: js)
  from k(1) have "map jid (enqueued (history st)) ! ?k = jid (enqueued (history st) ! ?k)"
    by (rule nth_map)
  with b k have "jid x = ?k" by simp
  with js show ?thesis by blast
qed

lemma sendFileSnapshot_Some:
  assumes "sendFileSnapshot h root u = Some p"
  shows "\<exists>b content. p = PostJson ''/event/fileSnapshot'' (FileSnapshot (rel_path h root u) b content)"
  using assms by (auto simp: sendFileSnapshot_def Let_def split: option.splits)

lemma sendFileSnapshot_readable:
  assumes "readFile h (fsPath u) = Some buf"
  shows "\<exists>content. sendFileSnapshot h root u =
           Some (PostJson ''/event/fileSnapshot''
                   (FileSnapshot (rel_path h root u) (isBinaryFile h buf) content))"
  using assms by (simp add: sendFileSnapshot_def Let_def)

lemma awaiting_running:
  assumes "wf s" "suspended s i = AwaitTask j d"
  shows "running s"
proof (rule ccontr)
  assume "\<not> running s"
  with assms(1) have f: "list_all finished (loops s)" by (simp add: wf_def)
  from assms(2) have "i < length (loops s)" "loops s ! i = AwaitTask j d"
    by (simp_all add: suspended_def split: if_splits)
  then have "AwaitTask j d \<in> set (loops s)" by (metis nth_mem)
  with f have "finished (AwaitTask j d)" unfolding list_all_iff by (rule bspec)
  then show False by simp
qed

lemma enqueue_running: "running s \<Longrightarrow> enqueue j s = s\<lparr>queue := queue s @ [j]\<rparr>"
  by (simp add: enqueue_def run_def)

lemma created_jobs:
  assumes i: "engine_inv root st1"
    and r: "engine_run root st1 (Handler [c, sn] # ins2) = Some st"
  shows "engine_inv root st \<and>
         (\<exists>js. enqueued (history st) =
                 enqueued (history st1) @
                 [\<lparr>jid = length (enqueued (history st1)), cause = None, work = c\<rparr>,
                  \<lparr>jid = Suc (length (enqueued (history st1))), cause = None, work = sn\<rparr>] @ js)"
proof -
  let ?st2 = "foldl (submit None) st1 [c, sn]"
  from r have r2: "engine_run root ?st2 ins2 = Some st" by simp
  from handler_inv[OF i, of "[c, sn]"]
  have i2: "engine_inv root ?st2"
    and e2: "enqueued (history ?st2) =
                 enqueued (history st1) @
                 [\<lparr>jid = length (enqueued (history st1)), cause = None, work = c\<rparr>,
                  \<lparr>jid = Suc (length (enqueued (history st1))), cause = None, work = sn\<rparr>]"
    by (simp_all add: upt_rec)
  from engine_run_inv[OF i2 r2] e2 show ?thesis by auto
qed

lemma reachable_inv:
  "engine_run root engine_init ins = Some st \<Longrightarrow> engine_inv root st"
  using engine_run_inv[OF engine_inv_init] by blast


lemma snapshot_posix_file:
  "sendFileSnapshot posix_host posix_root posix_file =
     Some (PostJson ''/event/fileSnapshot'' (FileSnapshot ''a.txt'' False ''aGk=''))"
proof -
  have r: "readFile posix_host (fsPath posix_file) = Some [0x68, 0x69]"
    by (simp add: posix_host_def posix_file_def)
  have i: "\<not> isBinaryFile posix_host [0x68, 0x69]"
    by (simp add: posix_host_def)
  have d: "utf8_decode [0x68, 0x69] = [0x68, 0x69]"
    by (simp add: utf8_decode_def utf8_scan.simps)
  have e: "utf8_encode [0x68, 0x69] = [0x68, 0x69]"
    by (simp add: utf8_encode_def utf8_of_def scalar_def)
  have b: "b64_encode [0x68, 0x69] = ''aGk=''"
    by (simp add: b64_encode_def b64_char_def b64_alphabet_def)
  show ?thesis
    by (simp add: sendFileSnapshot_def rel_posix_file r i d e b)
qed

lemma run_posix_file:
  "engine_run posix_root engine_init
     [Handler [PostJson ''/event/create'' (Create ''a.txt'' (Some False)),
               SendFileSnapshot posix_file],
      Settled 0 True, Shown 0, Body 0 posix_host, Settled 0 True, Shown 0, Settled 0 True] =
   Some \<lparr>retryQueue =
           \<lparr>queue = [], running = True, errorItem = None, loops = [AwaitClear],
            trace =
              [Attempt \<lparr>jid = 0, cause = None,
                        work = PostJson ''/event/create'' (Create ''a.txt'' (Some False))\<rparr>,
               Success \<lparr>jid = 0, cause = None,
                        work = PostJson ''/event/create'' (Create ''a.txt'' (Some False))\<rparr>,
               Attempt \<lparr>jid = 1, cause = None, work = SendFileSnapshot posix_file\<rparr>,
               Success \<lparr>jid = 1, cause = None, work = SendFileSnapshot posix_file\<rparr>,
               Attempt \<lparr>jid = 2, cause = Some 1,
                        work = PostJson ''/event/fileSnapshot''
                                 (FileSnapshot ''a.txt'' False ''aGk='')\<rparr>,
               Success \<lparr>jid = 2, cause = Some 1,
                        work = PostJson ''/event/fileSnapshot''
                                 (FileSnapshot ''a.txt'' False ''aGk='')\<rparr>]\<rparr>,
         history =
           [Enqueue \<lparr>jid = 0, cause = None,
                     work = PostJson ''/event/create'' (Create ''a.txt'' (Some False))\<rparr>,
            Enqueue \<lparr>jid = 1, cause = None, work = SendFileSnapshot posix_file\<rparr>,
            Resolve 0, Resume 0,
            Enqueue \<lparr>jid = 2, cause = Some 1,
                     work = PostJson ''/event/fileSnapshot''
                              (FileSnapshot ''a.txt'' False ''aGk='')\<rparr>,
            Resolve 0, Resume 0, Resolve 0],
         posted = False\<rparr>"
  by (simp add: engine_init_def init_def emit_def submit_def enqueue_def run_def run_while_def
      suspended_def clearError_def Let_def snapshot_posix_file)

text \<open>
  Claim C4. When a path is created whose \<open>stat\<close> has the File bit and not the
  Directory bit, the handler enqueues exactly two tasks, back to back: the POST of
  \<open>create\<close> with \<open>isDirectory: false\<close>, then the task that runs \<open>sendFileSnapshot\<close>
  for the path. When \<open>stat\<close> throws, it enqueues the POST of \<open>create\<close> without
  \<open>isDirectory\<close>, then the same snapshot task. When the file can be read,
  \<open>sendFileSnapshot\<close> produces the POST of the content to \<open>/event/fileSnapshot\<close>.

  In every run of the engine in which the handler enqueues the two tasks, they are
  next to each other in the order of enqueueing. The snapshot task is called only when
  exactly the tasks enqueued before it, the create POST last, have succeeded. Every
  POST that the snapshot task enqueues is the POST of the content to
  \<open>/event/fileSnapshot\<close> that \<open>sendFileSnapshot\<close> produced for the created path, and
  it is called only after the create POST and the snapshot task have succeeded: the
  collector receives the create before the content. And whenever the snapshot task is
  in flight and the file can be read, its body enqueues that POST at the tail of the
  queue.
\<close>

theorem create_then_snapshot:
  "(\<forall>ty. stat h (fsPath u) = Some ty \<and> ty AND FileType_Directory = 0 \<and> ty AND FileType_File \<noteq> 0
      \<longrightarrow> onDidCreate h root u =
            [PostJson ''/event/create'' (Create (rel_path h root u) (Some False)),
             SendFileSnapshot u]) \<and>
   (stat h (fsPath u) = None
      \<longrightarrow> onDidCreate h root u =
            [PostJson ''/event/create'' (Create (rel_path h root u) None),
             SendFileSnapshot u]) \<and>
   (\<forall>buf. readFile h (fsPath u) = Some buf \<longrightarrow>
      (\<exists>content. sendFileSnapshot h root u =
         Some (PostJson ''/event/fileSnapshot''
                 (FileSnapshot (rel_path h root u) (isBinaryFile h buf) content)))) \<and>
   (\<forall>c ins1 st1 ins2 st n cj sj.
      onDidCreate h root u = [c, SendFileSnapshot u] \<and>
      engine_run root engine_init ins1 = Some st1 \<and>
      engine_run root st1 (Handler (onDidCreate h root u) # ins2) = Some st \<and>
      n = length (enqueued (history st1)) \<and>
      cj = \<lparr>jid = n, cause = None, work = c\<rparr> \<and>
      sj = \<lparr>jid = Suc n, cause = None, work = SendFileSnapshot u\<rparr> \<longrightarrow>
      take 2 (drop n (enqueued (history st))) = [cj, sj] \<and>
      (\<forall>pre x post. trace (retryQueue st) = pre @ Attempt x # post \<longrightarrow>
         (x = sj \<longrightarrow> completed pre = enqueued (history st1) @ [cj]) \<and>
         (cause x = Some (Suc n) \<longrightarrow>
            Success cj \<in> set pre \<and> Success sj \<in> set pre \<and>
            (\<exists>h' b content.
               sendFileSnapshot h' root u = Some (work x) \<and>
               work x = PostJson ''/event/fileSnapshot''
                          (FileSnapshot (rel_path h' root u) b content))))) \<and>
   (\<forall>ins st i j d h' buf.
      engine_run root engine_init ins = Some st \<and>
      suspended (retryQueue st) i = AwaitTask j d \<and> work j = SendFileSnapshot u \<and>
      \<not> posted st \<and> readFile h' (fsPath u) = Some buf \<longrightarrow>
      (\<exists>st' p. react root st (Body i h') = Some st' \<and>
          sendFileSnapshot h' root u = Some p \<and>
          queue (retryQueue st') =
            queue (retryQueue st) @
            [\<lparr>jid = length (enqueued (history st)), cause = Some (jid j), work = p\<rparr>]))"
proof -
  have 1: "\<forall>ty. stat h (fsPath u) = Some ty \<and> ty AND FileType_Directory = 0 \<and> ty AND FileType_File \<noteq> 0
      \<longrightarrow> onDidCreate h root u =
            [PostJson ''/event/create'' (Create (rel_path h root u) (Some False)),
             SendFileSnapshot u]"
    by (simp add: onDidCreate_def)
  have 2: "stat h (fsPath u) = None
      \<longrightarrow> onDidCreate h root u =
            [PostJson ''/event/create'' (Create (rel_path h root u) None),
             SendFileSnapshot u]"
    by (simp add: onDidCreate_def)
  have 3: "\<forall>buf. readFile h (fsPath u) = Some buf \<longrightarrow>
      (\<exists>content. sendFileSnapshot h root u =
         Some (PostJson ''/event/fileSnapshot''
                 (FileSnapshot (rel_path h root u) (isBinaryFile h buf) content)))"
    using sendFileSnapshot_readable by blast
  have 4: "take 2 (drop n (enqueued (history st))) = [cj, sj] \<and>
      (\<forall>pre x post. trace (retryQueue st) = pre @ Attempt x # post \<longrightarrow>
         (x = sj \<longrightarrow> completed pre = enqueued (history st1) @ [cj]) \<and>
         (cause x = Some (Suc n) \<longrightarrow>
            Success cj \<in> set pre \<and> Success sj \<in> set pre \<and>
            (\<exists>h' b content.
               sendFileSnapshot h' root u = Some (work x) \<and>
               work x = PostJson ''/event/fileSnapshot''
                          (FileSnapshot (rel_path h' root u) b content))))"
    if hyp: "onDidCreate h root u = [c, SendFileSnapshot u] \<and>
      engine_run root engine_init ins1 = Some st1 \<and>
      engine_run root st1 (Handler (onDidCreate h root u) # ins2) = Some st \<and>
      n = length (enqueued (history st1)) \<and>
      cj = \<lparr>jid = n, cause = None, work = c\<rparr> \<and>
      sj = \<lparr>jid = Suc n, cause = None, work = SendFileSnapshot u\<rparr>"
    for c ins1 st1 ins2 st n cj sj
  proof -
    let ?e1 = "enqueued (history st1)"
    let ?e = "enqueued (history st)"
    from hyp have o: "onDidCreate h root u = [c, SendFileSnapshot u]"
      and r1: "engine_run root engine_init ins1 = Some st1"
      and r0: "engine_run root st1 (Handler (onDidCreate h root u) # ins2) = Some st"
      and n: "n = length ?e1"
      and cj: "cj = \<lparr>jid = length ?e1, cause = None, work = c\<rparr>"
      and sj: "sj = \<lparr>jid = Suc (length ?e1), cause = None, work = SendFileSnapshot u\<rparr>"
      by blast+
    from r0 have r2: "engine_run root st1 (Handler [c, SendFileSnapshot u] # ins2) = Some st"
      unfolding o .
    from created_jobs[OF reachable_inv[OF r1] r2] cj sj
    obtain js where inv: "engine_inv root st" and e: "?e = ?e1 @ [cj, sj] @ js"
      by auto
    have a: "take 2 (drop n ?e) = [cj, sj]" by (simp add: e n)
    have b: "(x = sj \<longrightarrow> completed pre = ?e1 @ [cj]) \<and>
         (cause x = Some (Suc n) \<longrightarrow>
            Success cj \<in> set pre \<and> Success sj \<in> set pre \<and>
            (\<exists>h' b content.
               sendFileSnapshot h' root u = Some (work x) \<and>
               work x = PostJson ''/event/fileSnapshot''
                          (FileSnapshot (rel_path h' root u) b content)))"
      if t: "trace (retryQueue st) = pre @ Attempt x # post" for pre x post
    proof -
      from attempt_position[OF inv t]
      obtain ks where p: "jid x = length (completed pre)" "?e = completed pre @ x # ks"
        by blast
      have tk: "completed pre = take (jid x) ?e" by (simp add: p)
      have b1: "completed pre = ?e1 @ [cj]" if "x = sj"
        using that tk by (simp add: e sj)
      have b2: "Success cj \<in> set pre \<and> Success sj \<in> set pre \<and>
            (\<exists>h' b content.
               sendFileSnapshot h' root u = Some (work x) \<and>
               work x = PostJson ''/event/fileSnapshot''
                          (FileSnapshot (rel_path h' root u) b content))"
        if cx: "cause x = Some (Suc n)"
      proof -
        have "x \<in> set ?e" by (simp add: p(2))
        with inv cx have lt: "Suc n < jid x"
          and ex: "\<exists>h' u'. work (?e ! Suc n) = SendFileSnapshot u' \<and>
                     sendFileSnapshot h' root u' = Some (work x)"
          unfolding engine_inv_def by blast+
        have "?e ! Suc n = sj" by (simp add: e n nth_append)
        with ex obtain h' where s: "sendFileSnapshot h' root u = Some (work x)"
          by (auto simp: sj)
        from lt obtain k where k: "jid x = length ?e1 + Suc (Suc k)"
          unfolding n by (metis less_imp_Suc_add add_Suc_right add_Suc)
        have "take (jid x) ?e = ?e1 @ [cj, sj] @ take k js"
          unfolding k e by simp
        with tk have "cj \<in> set (completed pre)" "sj \<in> set (completed pre)" by simp_all
        then have "Success cj \<in> set pre" "Success sj \<in> set pre"
          by (simp_all add: completed_mem)
        with s sendFileSnapshot_Some[OF s] show ?thesis by blast
      qed
      from b1 b2 show ?thesis by blast
    qed
    from a b show ?thesis by blast
  qed
  have 5: "\<exists>st' p. react root st (Body i h') = Some st' \<and>
          sendFileSnapshot h' root u = Some p \<and>
          queue (retryQueue st') =
            queue (retryQueue st) @
            [\<lparr>jid = length (enqueued (history st)), cause = Some (jid j), work = p\<rparr>]"
    if hyp: "engine_run root engine_init ins = Some st \<and>
      suspended (retryQueue st) i = AwaitTask j d \<and> work j = SendFileSnapshot u \<and>
      \<not> posted st \<and> readFile h' (fsPath u) = Some buf"
    for ins st i j d h' buf
  proof -
    from hyp sendFileSnapshot_readable[of h' u buf root]
    obtain p where p: "sendFileSnapshot h' root u = Some p" by blast
    from hyp reachable_inv have "exec init (history st) = Some (retryQueue st)"
      by (auto simp: engine_inv_def)
    from wf_exec[OF wf_init this] have "wf (retryQueue st)" .
    from awaiting_running[OF this] hyp have run: "running (retryQueue st)" by blast
    let ?j = "\<lparr>jid = length (enqueued (history st)), cause = Some (jid j), work = p\<rparr>"
    let ?st = "(submit (Some (jid j)) st p)\<lparr>posted := True\<rparr>"
    have "react root st (Body i h') = Some ?st"
      using hyp p by simp
    moreover have "queue (retryQueue ?st) = queue (retryQueue st) @ [?j]"
      by (simp add: submit_def Let_def enqueue_running[OF run])
    ultimately show ?thesis using p by blast
  qed
  have q4: "\<forall>c ins1 st1 ins2 st n cj sj.
      onDidCreate h root u = [c, SendFileSnapshot u] \<and>
      engine_run root engine_init ins1 = Some st1 \<and>
      engine_run root st1 (Handler (onDidCreate h root u) # ins2) = Some st \<and>
      n = length (enqueued (history st1)) \<and>
      cj = \<lparr>jid = n, cause = None, work = c\<rparr> \<and>
      sj = \<lparr>jid = Suc n, cause = None, work = SendFileSnapshot u\<rparr> \<longrightarrow>
      take 2 (drop n (enqueued (history st))) = [cj, sj] \<and>
      (\<forall>pre x post. trace (retryQueue st) = pre @ Attempt x # post \<longrightarrow>
         (x = sj \<longrightarrow> completed pre = enqueued (history st1) @ [cj]) \<and>
         (cause x = Some (Suc n) \<longrightarrow>
            Success cj \<in> set pre \<and> Success sj \<in> set pre \<and>
            (\<exists>h' b content.
               sendFileSnapshot h' root u = Some (work x) \<and>
               work x = PostJson ''/event/fileSnapshot''
                          (FileSnapshot (rel_path h' root u) b content))))"
    by (intro allI impI) (rule 4, assumption)
  have q5: "\<forall>ins st i j d h' buf.
      engine_run root engine_init ins = Some st \<and>
      suspended (retryQueue st) i = AwaitTask j d \<and> work j = SendFileSnapshot u \<and>
      \<not> posted st \<and> readFile h' (fsPath u) = Some buf \<longrightarrow>
      (\<exists>st' p. react root st (Body i h') = Some st' \<and>
          sendFileSnapshot h' root u = Some p \<and>
          queue (retryQueue st') =
            queue (retryQueue st) @
            [\<lparr>jid = length (enqueued (history st)), cause = Some (jid j), work = p\<rparr>])"
    by (intro allI impI) (rule 5, assumption)
  show ?thesis
    by (intro conjI) (fact 1 2 3 q4 q5)+
qed

theorem create_then_snapshot_witness:
  "stat posix_host (fsPath posix_file) = Some 1 \<and>
   (1::nat) AND FileType_Directory = 0 \<and> (1::nat) AND FileType_File \<noteq> 0 \<and>
   onDidCreate posix_host posix_root posix_file =
     [PostJson ''/event/create'' (Create ''a.txt'' (Some False)), SendFileSnapshot posix_file] \<and>
   stat posix_host (fsPath (posix_file\<lparr>fsPath := ''/w/s1/gone''\<rparr>)) = None \<and>
   onDidCreate posix_host posix_root (posix_file\<lparr>fsPath := ''/w/s1/gone''\<rparr>) =
     [PostJson ''/event/create'' (Create ''gone'' None),
      SendFileSnapshot (posix_file\<lparr>fsPath := ''/w/s1/gone''\<rparr>)] \<and>
   readFile posix_host (fsPath posix_file) = Some [0x68, 0x69] \<and>
   sendFileSnapshot posix_host posix_root posix_file =
     Some (PostJson ''/event/fileSnapshot'' (FileSnapshot ''a.txt'' False ''aGk='')) \<and>
   map_option (\<lambda>st. queue (retryQueue st))
     (react posix_root
        \<lparr>retryQueue =
           \<lparr>queue = [], running = True, errorItem = None,
            loops = [AwaitTask \<lparr>jid = 1, cause = None, work = SendFileSnapshot posix_file\<rparr> 1000],
            trace =
              [Attempt \<lparr>jid = 0, cause = None,
                        work = PostJson ''/event/create'' (Create ''a.txt'' (Some False))\<rparr>,
               Success \<lparr>jid = 0, cause = None,
                        work = PostJson ''/event/create'' (Create ''a.txt'' (Some False))\<rparr>,
               Attempt \<lparr>jid = 1, cause = None, work = SendFileSnapshot posix_file\<rparr>]\<rparr>,
         history =
           [Enqueue \<lparr>jid = 0, cause = None,
                     work = PostJson ''/event/create'' (Create ''a.txt'' (Some False))\<rparr>,
            Enqueue \<lparr>jid = 1, cause = None, work = SendFileSnapshot posix_file\<rparr>,
            Resolve 0, Resume 0],
         posted = False\<rparr>
        (Body 0 posix_host)) =
     Some [\<lparr>jid = 2, cause = Some 1,
            work = PostJson ''/event/fileSnapshot'' (FileSnapshot ''a.txt'' False ''aGk='')\<rparr>] \<and>
   map_option (\<lambda>st. trace (retryQueue st))
     (engine_run posix_root engine_init
        [Handler (onDidCreate posix_host posix_root posix_file),
         Settled 0 True, Shown 0, Body 0 posix_host, Settled 0 True, Shown 0, Settled 0 True]) =
     Some [Attempt \<lparr>jid = 0, cause = None,
                    work = PostJson ''/event/create'' (Create ''a.txt'' (Some False))\<rparr>,
           Success \<lparr>jid = 0, cause = None,
                    work = PostJson ''/event/create'' (Create ''a.txt'' (Some False))\<rparr>,
           Attempt \<lparr>jid = 1, cause = None, work = SendFileSnapshot posix_file\<rparr>,
           Success \<lparr>jid = 1, cause = None, work = SendFileSnapshot posix_file\<rparr>,
           Attempt \<lparr>jid = 2, cause = Some 1,
                    work = PostJson ''/event/fileSnapshot''
                             (FileSnapshot ''a.txt'' False ''aGk='')\<rparr>,
           Success \<lparr>jid = 2, cause = Some 1,
                    work = PostJson ''/event/fileSnapshot''
                             (FileSnapshot ''a.txt'' False ''aGk='')\<rparr>] \<and>
   Success \<lparr>jid = 0, cause = None,
            work = PostJson ''/event/create'' (Create ''a.txt'' (Some False))\<rparr>
     \<in> set [Attempt \<lparr>jid = 0, cause = None,
                      work = PostJson ''/event/create'' (Create ''a.txt'' (Some False))\<rparr>,
             Success \<lparr>jid = 0, cause = None,
                      work = PostJson ''/event/create'' (Create ''a.txt'' (Some False))\<rparr>,
             Attempt \<lparr>jid = 1, cause = None, work = SendFileSnapshot posix_file\<rparr>,
             Success \<lparr>jid = 1, cause = None, work = SendFileSnapshot posix_file\<rparr>]"
proof -
  let ?c = "PostJson ''/event/create'' (Create ''a.txt'' (Some False))"
  let ?sn = "SendFileSnapshot posix_file"
  let ?p = "PostJson ''/event/fileSnapshot'' (FileSnapshot ''a.txt'' False ''aGk='')"
  let ?cj = "\<lparr>jid = 0, cause = None, work = ?c\<rparr>"
  let ?sj = "\<lparr>jid = 1, cause = None, work = ?sn\<rparr>"
  let ?pj = "\<lparr>jid = 2, cause = Some 1, work = ?p\<rparr>"
  let ?gone = "posix_file\<lparr>fsPath := ''/w/s1/gone''\<rparr>"
  let ?st3 = "\<lparr>retryQueue =
           \<lparr>queue = [], running = True, errorItem = None, loops = [AwaitTask ?sj 1000],
            trace = [Attempt ?cj, Success ?cj, Attempt ?sj]\<rparr>,
         history = [Enqueue ?cj, Enqueue ?sj, Resolve 0, Resume 0],
         posted = False\<rparr>"
  let ?ins2 = "[Settled 0 True, Shown 0, Body 0 posix_host, Settled 0 True, Shown 0, Settled 0 True]"
  let ?tr = "[Attempt ?cj, Success ?cj, Attempt ?sj, Success ?sj, Attempt ?pj, Success ?pj]"
  let ?st = "\<lparr>retryQueue =
           \<lparr>queue = [], running = True, errorItem = None, loops = [AwaitClear], trace = ?tr\<rparr>,
         history = [Enqueue ?cj, Enqueue ?sj, Resolve 0, Resume 0, Enqueue ?pj,
                    Resolve 0, Resume 0, Resolve 0],
         posted = False\<rparr>"
  have st: "stat posix_host (fsPath posix_file) = Some 1"
    "stat posix_host (fsPath ?gone) = None"
    by (simp_all add: posix_host_def posix_file_def)
  have bits: "(1::nat) AND FileType_Directory = 0" "(1::nat) AND FileType_File \<noteq> 0"
    by (simp_all add: FileType_Directory_def FileType_File_def)
  have rg: "rel_path posix_host posix_root ?gone = ''gone''"
    by (simp add: path_eval posix_host_def posix_root_def posix_file_def)
  have rf: "readFile posix_host (fsPath posix_file) = Some [0x68, 0x69]"
    by (simp add: posix_host_def posix_file_def)
  note t = create_then_snapshot[of posix_host posix_file posix_root]
  note g = create_then_snapshot[of posix_host ?gone posix_root]
  have c: "onDidCreate posix_host posix_root posix_file = [?c, ?sn]"
    using t[THEN conjunct1, rule_format, of 1] st(1) bits
    unfolding rel_posix_file by blast
  have d: "onDidCreate posix_host posix_root ?gone =
     [PostJson ''/event/create'' (Create ''gone'' None), SendFileSnapshot ?gone]"
    using g[THEN conjunct2, THEN conjunct1, rule_format] st(2)
    unfolding rg by blast
  have sp: "sendFileSnapshot posix_host posix_root posix_file = Some ?p"
    by (rule snapshot_posix_file)
  have r3: "engine_run posix_root engine_init [Handler [?c, ?sn], Settled 0 True, Shown 0] =
            Some ?st3"
    by (simp add: engine_init_def init_def emit_def submit_def enqueue_def run_def run_while_def
        suspended_def clearError_def Let_def)
  have h5: "engine_run posix_root engine_init [Handler [?c, ?sn], Settled 0 True, Shown 0] =
              Some ?st3 \<and>
            suspended (retryQueue ?st3) 0 = AwaitTask ?sj 1000 \<and> work ?sj = ?sn \<and>
            \<not> posted ?st3 \<and> readFile posix_host (fsPath posix_file) = Some [0x68, 0x69]"
    using r3 rf by (simp add: suspended_def)
  from t[THEN conjunct2, THEN conjunct2, THEN conjunct2, THEN conjunct2, rule_format, OF h5]
  obtain st' p where b: "react posix_root ?st3 (Body 0 posix_host) = Some st'"
    "sendFileSnapshot posix_host posix_root posix_file = Some p"
    "queue (retryQueue st') =
       queue (retryQueue ?st3) @ [\<lparr>jid = length (enqueued (history ?st3)), cause = Some (jid ?sj), work = p\<rparr>]"
    by blast
  from b(2) sp have "p = ?p" by simp
  with b(3) have "queue (retryQueue st') = [?pj]" by simp
  with b(1) have q: "map_option (\<lambda>st. queue (retryQueue st))
     (react posix_root ?st3 (Body 0 posix_host)) = Some [?pj]"
    by (simp only: option.map)
  have r: "engine_run posix_root engine_init (Handler [?c, ?sn] # ?ins2) = Some ?st"
    by (rule run_posix_file)
  have tr: "map_option (\<lambda>st. trace (retryQueue st))
     (engine_run posix_root engine_init (Handler (onDidCreate posix_host posix_root posix_file) # ?ins2)) =
     Some ?tr"
    unfolding c r by simp
  have i: "engine_run posix_root engine_init [] = Some engine_init" by simp
  have h4: "onDidCreate posix_host posix_root posix_file = [?c, ?sn] \<and>
      engine_run posix_root engine_init [] = Some engine_init \<and>
      engine_run posix_root engine_init (Handler (onDidCreate posix_host posix_root posix_file) # ?ins2) =
        Some ?st \<and>
      0 = length (enqueued (history engine_init)) \<and>
      ?cj = \<lparr>jid = 0, cause = None, work = ?c\<rparr> \<and>
      ?sj = \<lparr>jid = Suc 0, cause = None, work = ?sn\<rparr>"
    using c r by (simp add: engine_init_def)
  have sp4: "trace (retryQueue ?st) = [Attempt ?cj, Success ?cj, Attempt ?sj, Success ?sj] @ Attempt ?pj # [Success ?pj]"
    by simp
  have cz: "cause ?pj = Some (Suc 0)" by simp
  have m: "Success ?cj \<in> set [Attempt ?cj, Success ?cj, Attempt ?sj, Success ?sj]"
    using t[THEN conjunct2, THEN conjunct2, THEN conjunct2, THEN conjunct1, rule_format, OF h4,
            THEN conjunct2, rule_format, OF sp4, THEN conjunct2, rule_format, OF cz]
    by (rule conjunct1)
  show ?thesis
    by (intro conjI) (fact st bits c d rf sp q tr m)+
qed

section \<open>Properties of the text-edit handler\<close>

subsection \<open>Debounced text edits\<close>

text \<open>
  For a document that passes the filter, a burst of edits followed by 500 quiet
  milliseconds leads to exactly one call of \<open>sendFileSnapshot\<close>, 500 ms after the
  last edit.
\<close>

lemma edits_burst:
  assumes "scheme u = ''file''" "prefix (fsPath root) (fsPath u)"
  shows "ts \<noteq> [] \<Longrightarrow> burst ts \<Longrightarrow> last ts + 500 \<le> end \<Longrightarrow>
         pending = [] \<or> (\<exists>d. pending = [(uri_toString u, d, u)] \<and> hd ts < d) \<Longrightarrow>
         edits root (map (\<lambda>t. (t, u)) ts) end pending = [(last ts + 500, u)]"
proof (induction ts arbitrary: pending rule: burst.induct)
  case 1
  then show ?case by simp
next
  case (2 t)
  then show ?case using assms
    by (auto simp: fire_due_def onDidChangeTextDocument_def)
next
  case (3 t t' ts)
  from 3(5) have f: "fire_due t pending = ([], pending)"
    by (auto simp: fire_due_def)
  have c: "onDidChangeTextDocument root t u pending = [(uri_toString u, t + 500, u)]"
    using 3(5) assms by (auto simp: onDidChangeTextDocument_def)
  have "edits root (map (\<lambda>t. (t, u)) (t' # ts)) end [(uri_toString u, t + 500, u)]
        = [(last (t' # ts) + 500, u)]"
    using 3(3,4) by (intro 3(1)) simp_all
  with f c show ?case by simp
qed

lemma debounce_collapses:
  assumes "scheme u = ''file''" "prefix (fsPath root) (fsPath u)"
    and "ts \<noteq> []" "burst ts" "last ts + 500 \<le> end"
  shows "edits root (map (\<lambda>t. (t, u)) ts) end [] = [(last ts + 500, u)]"
  using edits_burst[OF assms(1,2,3,4,5), of "[]"] by simp

text \<open>
  Claim C5, evaluated where the code departs from it. The session root is \<open>/w/s1\<close>
  and the edited document is \<open>/w/s10/a.txt\<close>, a file in a sibling directory whose
  name starts with the name of the root. The filter compares the two paths as strings,
  so the edit sets a timer, and 500 ms later \<open>sendFileSnapshot\<close> is called for the
  document and enqueues a POST with the path \<open>../s10/a.txt\<close>.
\<close>

theorem text_edit_outside_root:
  "scheme sibling_file = ''file'' \<and>
   segments Posix (fsPath posix_root) = [''w'', ''s1''] \<and>
   segments Posix (fsPath sibling_file) = [''w'', ''s10'', ''a.txt''] \<and>
   edits posix_root [(0, sibling_file)] 500 [] = [(500, sibling_file)] \<and>
   sendFileSnapshot posix_host posix_root sibling_file =
     Some (PostJson ''/event/fileSnapshot'' (FileSnapshot ''../s10/a.txt'' False ''aGk=''))"
proof -
  have 1: "scheme sibling_file = ''file''" by (simp add: sibling_file_def)
  have 2: "segments Posix (fsPath posix_root) = [''w'', ''s1'']"
    by (simp add: segments_def is_sep_def posix_root_def)
  have 3: "segments Posix (fsPath sibling_file) = [''w'', ''s10'', ''a.txt'']"
    by (simp add: segments_def is_sep_def sibling_file_def)
  have 4: "edits posix_root [(0, sibling_file)] 500 [] = [(500, sibling_file)]"
    by (simp add: fire_due_def onDidChangeTextDocument_def sibling_file_def posix_root_def)
  have r: "rel_path posix_host posix_root sibling_file = ''../s10/a.txt''"
    by (simp add: path_eval posix_host_def posix_root_def sibling_file_def)
  have d: "utf8_decode [0x68, 0x69] = [0x68, 0x69]"
    by (simp add: utf8_decode_def)
  have e: "utf8_encode [0x68, 0x69] = [0x68, 0x69]"
    by (simp add: utf8_encode_def utf8_of_def scalar_def)
  have b: "b64_encode [0x68, 0x69] = ''aGk=''"
    by (simp add: b64_encode_def b64_char_def b64_alphabet_def)
  have 5: "sendFileSnapshot posix_host posix_root sibling_file =
     Some (PostJson ''/event/fileSnapshot'' (FileSnapshot ''../s10/a.txt'' False ''aGk=''))"
    by (simp add: sendFileSnapshot_def r d e b)
       (simp add: posix_host_def sibling_file_def d e b)
  show ?thesis by (intro conjI) (fact 1 2 3 4 5)+
qed

section \<open>Properties of the Manifest Materializer\<close>

subsection \<open>Cleanup of old sessions\<close>

lemma prefix_joinPath: "prefix (base @ [sep pf]) (joinPath pf base name)"
  by (simp add: joinPath_def)

lemma cleanup_deletes:
  "cleanupOldSessions h base =
     map (\<lambda>name. Delete (joinPath (os h) base name))
       (filter (\<lambda>name. joinPath (os h) base name \<notin> set (openFolders h))
          (case readDirectory h base of None \<Rightarrow> [] | Some names \<Rightarrow> names))"
  by (simp add: cleanupOldSessions_def prefix_joinPath cong: filter_cong)

lemma joinPath_inject: "joinPath pf base n = joinPath pf base m \<longleftrightarrow> n = m"
  by (simp add: joinPath_def)

lemma joinPath_below:
  "prefix (joinPath pf base m @ [sep pf]) (joinPath pf base n) \<Longrightarrow> sep pf \<in> set n"
  by (auto simp: joinPath_def prefix_def)

text \<open>
  Claim C7 as stated fails on both counts. The sessions root has the entries \<open>s1\<close>
  and \<open>s2\<close>; the folder open in the editor is \<open>s1/src\<close>; the delete of \<open>s2\<close>
  throws. Then \<open>s2\<close>, which is not open, is still there after the cleanup, and the
  open folder \<open>s1/src\<close> is gone, deleted with \<open>s1\<close>.
\<close>

theorem cleanup_counterexample:
  "cleanupOldSessions nested_host ''/tmp/workspace-launch-by-link'' =
     [Delete ''/tmp/workspace-launch-by-link/s1'', Delete ''/tmp/workspace-launch-by-link/s2''] \<and>
   workspaceFolders nested_host = Some [''/tmp/workspace-launch-by-link/s1/src''] \<and>
   readDirectory nested_host ''/tmp/workspace-launch-by-link'' = Some [''s1'', ''s2''] \<and>
   \<not> removed nested_host (cleanupOldSessions nested_host ''/tmp/workspace-launch-by-link'')
       ''/tmp/workspace-launch-by-link/s2'' \<and>
   removed nested_host (cleanupOldSessions nested_host ''/tmp/workspace-launch-by-link'')
       ''/tmp/workspace-launch-by-link/s1/src''"
proof -
  have w: "workspaceFolders nested_host = Some [''/tmp/workspace-launch-by-link/s1/src'']"
    by (simp add: nested_host_def)
  have r: "readDirectory nested_host ''/tmp/workspace-launch-by-link'' = Some [''s1'', ''s2'']"
    by (simp add: nested_host_def posix_host_def)
  have o: "os nested_host = Posix" by (simp add: nested_host_def posix_host_def)
  have c: "cleanupOldSessions nested_host ''/tmp/workspace-launch-by-link'' =
     [Delete ''/tmp/workspace-launch-by-link/s1'', Delete ''/tmp/workspace-launch-by-link/s2'']"
    by (simp add: cleanup_deletes openFolders_def w r o joinPath_def sep_def)
  have j: "rejects nested_host x = (x = Delete ''/tmp/workspace-launch-by-link/s2'')" for x
    by (simp add: nested_host_def)
  have 1: "\<not> removed nested_host (cleanupOldSessions nested_host ''/tmp/workspace-launch-by-link'')
       ''/tmp/workspace-launch-by-link/s2''"
    by (simp add: c removed_def j o sep_def)
  have 2: "removed nested_host (cleanupOldSessions nested_host ''/tmp/workspace-launch-by-link'')
       ''/tmp/workspace-launch-by-link/s1/src''"
    by (simp add: c removed_def j o sep_def)
  show ?thesis by (intro conjI) (fact c w r 1 2)+
qed

text \<open>
  Claim C7, amended. For the entries that \<open>readDirectory\<close> lists (each a single path
  segment), the cleanup issues a recursive delete for exactly the children whose path
  is not the path of an open workspace folder, in order; such a child is gone when its
  delete does not throw; and a child that is itself an open workspace folder is never
  deleted.
\<close>

theorem cleanup_best_effort:
  assumes "readDirectory h base = Some names"
    and "\<forall>n\<in>set names. sep (os h) \<notin> set n"
  shows "cleanupOldSessions h base =
           map Delete (filter (\<lambda>c. c \<notin> set (openFolders h))
                         (map (joinPath (os h) base) names)) \<and>
         (\<forall>n\<in>set names.
            (joinPath (os h) base n \<notin> set (openFolders h) \<and>
             \<not> rejects h (Delete (joinPath (os h) base n))
               \<longrightarrow> removed h (cleanupOldSessions h base) (joinPath (os h) base n)) \<and>
            (joinPath (os h) base n \<in> set (openFolders h)
               \<longrightarrow> \<not> removed h (cleanupOldSessions h base) (joinPath (os h) base n)))"
proof -
  let ?child = "joinPath (os h) base"
  let ?open = "set (openFolders h)"
  have ops: "cleanupOldSessions h base =
      map (\<lambda>name. Delete (?child name)) (filter (\<lambda>name. ?child name \<notin> ?open) names)"
    by (simp add: cleanup_deletes assms(1))
  have 1: "cleanupOldSessions h base =
           map Delete (filter (\<lambda>c. c \<notin> ?open) (map ?child names))"
    by (simp add: ops filter_map comp_def)
  have 2: "removed h (cleanupOldSessions h base) (?child n)"
    if "n \<in> set names" "?child n \<notin> ?open" "\<not> rejects h (Delete (?child n))" for n
    using that by (auto simp: ops removed_def list_ex_iff)
  have 3: "\<not> removed h (cleanupOldSessions h base) (?child n)"
    if n: "n \<in> set names" "?child n \<in> ?open" for n
  proof
    assume "removed h (cleanupOldSessions h base) (?child n)"
    then obtain m where m: "m \<in> set names" "?child m \<notin> ?open"
      "?child n = ?child m \<or> prefix (?child m @ [sep (os h)]) (?child n)"
      by (auto simp: ops removed_def list_ex_iff)
    from m(3) show False
    proof
      assume "?child n = ?child m"
      with m(2) n(2) show False by simp
    next
      assume "prefix (?child m @ [sep (os h)]) (?child n)"
      then have "sep (os h) \<in> set n" by (rule joinPath_below)
      with assms(2) n(1) show False by blast
    qed
  qed
  from 1 2 3 show ?thesis by blast
qed

theorem cleanup_best_effort_witness:
  "readDirectory posix_host ''/tmp/workspace-launch-by-link'' = Some [''s1'', ''s2''] \<and>
   sep (os posix_host) \<notin> set ''s1'' \<and> sep (os posix_host) \<notin> set ''s2'' \<and>
   openFolders posix_host = [''/tmp/workspace-launch-by-link/s1''] \<and>
   cleanupOldSessions posix_host ''/tmp/workspace-launch-by-link'' =
     [Delete ''/tmp/workspace-launch-by-link/s2''] \<and>
   removed posix_host (cleanupOldSessions posix_host ''/tmp/workspace-launch-by-link'')
     ''/tmp/workspace-launch-by-link/s2'' \<and>
   \<not> removed posix_host (cleanupOldSessions posix_host ''/tmp/workspace-launch-by-link'')
     ''/tmp/workspace-launch-by-link/s1''"
proof -
  let ?base = "''/tmp/workspace-launch-by-link''"
  have r: "readDirectory posix_host ?base = Some [''s1'', ''s2'']"
    by (simp add: posix_host_def)
  have s: "sep (os posix_host) \<notin> set ''s1''" "sep (os posix_host) \<notin> set ''s2''"
    by (simp_all add: posix_host_def sep_def)
  then have a: "\<forall>n\<in>set [''s1'', ''s2'']. sep (os posix_host) \<notin> set n" by simp
  have op: "openFolders posix_host = [''/tmp/workspace-launch-by-link/s1'']"
    by (simp add: openFolders_def posix_host_def)
  have j: "joinPath (os posix_host) ?base ''s1'' = ''/tmp/workspace-launch-by-link/s1''"
    "joinPath (os posix_host) ?base ''s2'' = ''/tmp/workspace-launch-by-link/s2''"
    by (simp_all add: joinPath_def posix_host_def sep_def)
  have nr: "\<not> rejects posix_host (Delete ''/tmp/workspace-launch-by-link/s2'')"
    by (simp add: posix_host_def)
  note t = cleanup_best_effort[OF r a]
  from t have c: "cleanupOldSessions posix_host ?base = [Delete ''/tmp/workspace-launch-by-link/s2'']"
    by (simp add: j op)
  from t[THEN conjunct2, rule_format, of "''s2''", THEN conjunct1] nr
  have 1: "removed posix_host (cleanupOldSessions posix_host ?base) ''/tmp/workspace-launch-by-link/s2''"
    by (simp add: j op)
  from t[THEN conjunct2, rule_format, of "''s1''", THEN conjunct2]
  have 2: "\<not> removed posix_host (cleanupOldSessions posix_host ?base) ''/tmp/workspace-launch-by-link/s1''"
    by (simp add: j op)
  show ?thesis by (intro conjI) (fact r s op c 1 2)+
qed

subsection \<open>Fetching the manifest\<close>






lemma filter_is_get_Fs [simp]: "filter is_get (map Fs ops) = []"
  by (induction ops) simp_all





subsection \<open>Entries without content\<close>

lemma b64_decode_empty: "b64_decode [] = []"
  by (simp add: b64_decode_def List.map_filter_simps)

lemma write_entries_no_reject:
  assumes "\<forall>x. \<not> rejects h x"
  shows "snd (write_entries h root es) = None \<and>
         (\<forall>e\<in>set es. type e \<noteq> ''directory'' \<longrightarrow>
            writeFileFromBase64 (joinPath (os h) root (path e))
              (case contentBase64 e of None \<Rightarrow> [] | Some s \<Rightarrow> s)
            \<in> set (fst (write_entries h root es)))"
  using assms
  by (induction es) (auto simp: Let_def split: prod.splits)

text \<open>
  Claim C10. For a manifest entry of type \<open>file\<close> without \<open>contentBase64\<close>, the loop
  creates the parent directory and writes a file of zero bytes at the entry's path;
  it stops there only if that \<open>writeFile\<close> itself throws, and goes on with the rest of
  the manifest otherwise. With a manifest that contains such an entry and a file system
  that throws nowhere, the materialization succeeds and the zero-byte file is among
  its writes.
\<close>

theorem absent_content_empty_file:
  assumes "type entry = ''file''" "contentBase64 entry = None"
  shows
    "write_entries h root (entry # es) =
       (if rejects h (WriteFile (joinPath (os h) root (path entry)) (Bytes []))
        then ([CreateDirectory (dirname (os h) (joinPath (os h) root (path entry))),
               WriteFile (joinPath (os h) root (path entry)) (Bytes [])],
              Some (WriteFile (joinPath (os h) root (path entry)) (Bytes [])))
        else (CreateDirectory (dirname (os h) (joinPath (os h) root (path entry)))
              # WriteFile (joinPath (os h) root (path entry)) (Bytes [])
              # fst (write_entries h root es),
              snd (write_entries h root es))) \<and>
     (\<forall>serverUrl payload u0 res manifest.
        parseURL h serverUrl = Some u0 \<and>
        fetch h (manifest_url u0 payload) = Some res \<and>
        200 \<le> status res \<and> status res \<le> 299 \<and>
        json res = Some manifest \<and> entry \<in> set manifest \<and> (\<forall>x. \<not> rejects h x)
        \<longrightarrow>
        snd (downloadAndMaterializeWorkspace h serverUrl payload) =
          Inr (joinPath (os h) (joinPath (os h) (tmpdir h) ''workspace-launch-by-link'')
                 (folderName h payload)) \<and>
        Fs (WriteFile
              (joinPath (os h)
                 (joinPath (os h) (joinPath (os h) (tmpdir h) ''workspace-launch-by-link'')
                    (folderName h payload))
                 (path entry))
              (Bytes []))
          \<in> set (fst (downloadAndMaterializeWorkspace h serverUrl payload)))"
proof -
  have 1: "write_entries h root (entry # es) =
       (if rejects h (WriteFile (joinPath (os h) root (path entry)) (Bytes []))
        then ([CreateDirectory (dirname (os h) (joinPath (os h) root (path entry))),
               WriteFile (joinPath (os h) root (path entry)) (Bytes [])],
              Some (WriteFile (joinPath (os h) root (path entry)) (Bytes [])))
        else (CreateDirectory (dirname (os h) (joinPath (os h) root (path entry)))
              # WriteFile (joinPath (os h) root (path entry)) (Bytes [])
              # fst (write_entries h root es),
              snd (write_entries h root es)))"
    using assms
    by (simp add: Let_def writeFileFromBase64_def ensureDir_def b64_decode_empty
        split: prod.splits)
  have 2: "snd (downloadAndMaterializeWorkspace h serverUrl payload) =
          Inr (joinPath (os h) (joinPath (os h) (tmpdir h) ''workspace-launch-by-link'')
                 (folderName h payload)) \<and>
        Fs (WriteFile
              (joinPath (os h)
                 (joinPath (os h) (joinPath (os h) (tmpdir h) ''workspace-launch-by-link'')
                    (folderName h payload))
                 (path entry))
              (Bytes []))
          \<in> set (fst (downloadAndMaterializeWorkspace h serverUrl payload))"
    if a: "parseURL h serverUrl = Some u0 \<and>
        fetch h (manifest_url u0 payload) = Some res \<and>
        200 \<le> status res \<and> status res \<le> 299 \<and>
        json res = Some manifest \<and> entry \<in> set manifest \<and> (\<forall>x. \<not> rejects h x)"
    for serverUrl payload u0 res manifest
  proof -
    let ?root = "joinPath (os h) (joinPath (os h) (tmpdir h) ''workspace-launch-by-link'')
                   (folderName h payload)"
    from a have nr: "\<forall>x. \<not> rejects h x" by blast
    from a have e: "entry \<in> set manifest" by blast
    from write_entries_no_reject[OF nr, of ?root manifest]
    have w1: "snd (write_entries h ?root manifest) = None"
      and w2: "\<forall>e\<in>set manifest. type e \<noteq> ''directory'' \<longrightarrow>
            writeFileFromBase64 (joinPath (os h) ?root (path e))
              (case contentBase64 e of None \<Rightarrow> [] | Some s \<Rightarrow> s)
            \<in> set (fst (write_entries h ?root manifest))"
      by blast+
    from w2 e assms
    have w3: "WriteFile (joinPath (os h) ?root (path entry)) (Bytes [])
         \<in> set (fst (write_entries h ?root manifest))"
      by (fastforce simp: writeFileFromBase64_def b64_decode_empty)
    obtain ops where o: "write_entries h ?root manifest = (ops, None)"
      using w1 by (cases "write_entries h ?root manifest") auto
    from w3 o have m: "WriteFile (joinPath (os h) ?root (path entry)) (Bytes []) \<in> set ops"
      by simp
    from a have c: "parseURL h serverUrl = Some u0"
      "fetch h (manifest_url u0 payload) = Some res" "ok res" "json res = Some manifest"
      by (simp_all add: ok_def)
    have d: "downloadAndMaterializeWorkspace h serverUrl payload =
      (HttpGet (manifest_url u0 payload)
         # Fs (ensureDir (joinPath (os h) (tmpdir h) ''workspace-launch-by-link''))
         # map Fs (cleanupOldSessions h (joinPath (os h) (tmpdir h) ''workspace-launch-by-link''))
         @ [Fs (ensureDir ?root)] @ map Fs ops
         @ [Fs (ensureDir (joinPath (os h) ?root ''.vscode'')),
            Fs (WriteFile (joinPath (os h) (joinPath (os h) ?root ''.vscode'')
                             ''workspace-launch-by-link.json'')
                  (MarkerJson serverUrl payload)),
            Fs (WriteFile (joinPath (os h) (joinPath (os h) ?root ''.vscode'') ''settings.json'')
                  (SettingsJson (readFile h (joinPath (os h) (joinPath (os h) ?root ''.vscode'')
                                               ''settings.json''))))],
       Inr ?root)"
      unfolding downloadAndMaterializeWorkspace_def Let_def
      by (simp add: c o nr)
    show ?thesis
      unfolding d using m by simp
  qed
  show ?thesis
    by (intro conjI allI impI) (rule 1, (rule 2[THEN conjunct1], assumption), (rule 2[THEN conjunct2], assumption))
qed

theorem absent_content_empty_file_witness:
  "type empty_entry = ''file'' \<and> contentBase64 empty_entry = None \<and>
   parseURL serving_host ''http://localhost:8787'' =
     Some \<lparr>origin = ''http://localhost:8787'', pathname = ''/'', searchParams = []\<rparr> \<and>
   fetch serving_host
     (manifest_url \<lparr>origin = ''http://localhost:8787'', pathname = ''/'', searchParams = []\<rparr> alice)
     = Some \<lparr>status = 200, json = Some [empty_entry]\<rparr> \<and>
   snd (downloadAndMaterializeWorkspace serving_host ''http://localhost:8787'' alice) =
     Inr ''/tmp/workspace-launch-by-link/session-1700-k3x9qa-week1'' \<and>
   Fs (WriteFile ''/tmp/workspace-launch-by-link/session-1700-k3x9qa-week1/empty.txt'' (Bytes []))
     \<in> set (fst (downloadAndMaterializeWorkspace serving_host ''http://localhost:8787'' alice))"
proof -
  let ?srv = "\<lparr>origin = ''http://localhost:8787'', pathname = ''/'', searchParams = []\<rparr>"
  let ?res = "\<lparr>status = 200, json = Some [empty_entry]\<rparr>"
  have e: "type empty_entry = ''file''" "contentBase64 empty_entry = None"
    by (simp_all add: empty_entry_def)
  have p: "parseURL serving_host ''http://localhost:8787'' = Some ?srv"
    by (simp add: serving_host_def posix_host_def)
  have f: "fetch serving_host (manifest_url ?srv alice) = Some ?res"
    by (simp add: serving_host_def)
  have nr: "\<forall>x. \<not> rejects serving_host x"
    by (simp add: serving_host_def posix_host_def)
  have pre: "parseURL serving_host ''http://localhost:8787'' = Some ?srv \<and>
        fetch serving_host (manifest_url ?srv alice) = Some ?res \<and>
        200 \<le> status ?res \<and> status ?res \<le> 299 \<and>
        json ?res = Some [empty_entry] \<and> empty_entry \<in> set [empty_entry] \<and>
        (\<forall>x. \<not> rejects serving_host x)"
    using p f nr by simp
  have dec: "decimal 1700 = ''1700''"
    by simp
  have fo: "folderName serving_host alice = ''session-1700-k3x9qa-week1''"
    by (simp add: folderName_def serving_host_def posix_host_def alice_def dec del: decimal.simps)
  have root: "joinPath (os serving_host)
                (joinPath (os serving_host) (tmpdir serving_host) ''workspace-launch-by-link'')
                (folderName serving_host alice) =
              ''/tmp/workspace-launch-by-link/session-1700-k3x9qa-week1''"
    unfolding fo by (simp add: joinPath_def sep_def serving_host_def posix_host_def)
  have fl: "joinPath (os serving_host)
                ''/tmp/workspace-launch-by-link/session-1700-k3x9qa-week1'' (path empty_entry) =
              ''/tmp/workspace-launch-by-link/session-1700-k3x9qa-week1/empty.txt''"
    by (simp add: joinPath_def sep_def serving_host_def posix_host_def empty_entry_def)
  note t = absent_content_empty_file[OF e, of serving_host, THEN conjunct2, rule_format, OF pre]
  have r: "snd (downloadAndMaterializeWorkspace serving_host ''http://localhost:8787'' alice) =
     Inr ''/tmp/workspace-launch-by-link/session-1700-k3x9qa-week1''"
    using t[THEN conjunct1] unfolding root .
  have mem: "Fs (WriteFile ''/tmp/workspace-launch-by-link/session-1700-k3x9qa-week1/empty.txt'' (Bytes []))
     \<in> set (fst (downloadAndMaterializeWorkspace serving_host ''http://localhost:8787'' alice))"
    using t[THEN conjunct2] unfolding root fl .
  show ?thesis by (intro conjI) (fact e p f r mem)+
qed

section \<open>Properties of the encodings\<close>

subsection \<open>Base64\<close>

lemma b64_alphabet_length: "length b64_alphabet = 64"
  by (simp add: b64_alphabet_def)

lemma b64_alphabet_distinct: "distinct b64_alphabet"
  by (simp add: b64_alphabet_def)

lemma b64_alphabet_free:
  "CHR ''='' \<notin> set b64_alphabet" "CHR ''-'' \<notin> set b64_alphabet" "CHR ''_'' \<notin> set b64_alphabet"
  by (simp_all add: b64_alphabet_def)

lemma b64_char_in: "n < 64 \<Longrightarrow> b64_char n \<in> set b64_alphabet"
  by (simp add: b64_char_def b64_alphabet_length)

lemma b64_value_char: "n < 64 \<Longrightarrow> b64_value (b64_char n) = Some n"
proof -
  assume n: "n < 64"
  from b64_char_in[OF n] b64_alphabet_free
  have "b64_char n \<noteq> CHR ''-''" "b64_char n \<noteq> CHR ''_''" by auto
  moreover have "map_of (zip b64_alphabet [0..<64]) (b64_alphabet ! n) = Some ([0..<64] ! n)"
    using n by (intro map_of_zip_nth) (simp_all add: b64_alphabet_length b64_alphabet_distinct)
  ultimately show ?thesis using n by (simp add: b64_value_def b64_char_def)
qed

lemma map_filter_b64:
  "\<forall>s\<in>set sx. s < 64 \<Longrightarrow> List.map_filter b64_value (map b64_char sx) = sx"
  by (induction sx) (simp_all add: List.map_filter_simps b64_value_char)

lemma takeWhile_b64:
  assumes "\<forall>s\<in>set sx. s < 64"
  shows "takeWhile (\<lambda>c. c \<noteq> CHR ''='') (map b64_char sx @ replicate k (CHR ''='')) = map b64_char sx"
proof -
  have "\<forall>c\<in>set (map b64_char sx). c \<noteq> CHR ''=''"
  proof
    fix c assume "c \<in> set (map b64_char sx)"
    then obtain s where "s \<in> set sx" "c = b64_char s" by auto
    with assms have "c \<in> set b64_alphabet" by (simp add: b64_char_in)
    with b64_alphabet_free(1) show "c \<noteq> CHR ''=''" by blast
  qed
  then have "takeWhile (\<lambda>c. c \<noteq> CHR ''='') (map b64_char sx @ replicate k (CHR ''='')) =
        map b64_char sx @ takeWhile (\<lambda>c. c \<noteq> CHR ''='') (replicate k (CHR ''=''))"
    by (intro takeWhile_append2) auto
  also have "takeWhile (\<lambda>c. c \<noteq> CHR ''='') (replicate k (CHR ''='')) = []"
    by (cases k) simp_all
  finally show ?thesis by simp
qed

lemma sextets_lt64: "\<forall>b\<in>set bs. b < 256 \<Longrightarrow> \<forall>s\<in>set (sextets bs). s < 64"
proof (induction bs rule: sextets.induct)
  case (1 a b c bs)
  then have "a < 256" "b < 256" "c < 256" by simp_all
  then have "a div 4 < 64" "a mod 4 * 16 + b div 16 < 64" "b mod 16 * 4 + c div 64 < 64" "c mod 64 < 64"
    by arith+
  with 1 show ?case by simp
next
  case (2 a b)
  then have "a < 256" "b < 256" by simp_all
  then have "a div 4 < 64" "a mod 4 * 16 + b div 16 < 64" "b mod 16 * 4 < 64"
    by arith+
  then show ?case by simp
next
  case (3 a)
  then have "a < 256" by simp
  then have "a div 4 < 64" "a mod 4 * 16 < 64" by arith+
  then show ?case by simp
next
  case 4
  then show ?case by simp
qed

lemma div_add_small: "x < k \<Longrightarrow> (m * k + x) div k = (m::nat)"
  by simp

lemma mod_add_small: "x < k \<Longrightarrow> (m * k + x) mod k = (x::nat)"
  by simp

lemma group3:
  assumes "b < 256" "c < 256"
  shows "a div 4 * 4 + (a mod 4 * 16 + b div 16) div 16 = (a::nat)"
    "(a mod 4 * 16 + b div 16) mod 16 * 16 + (b mod 16 * 4 + c div 64) div 4 = b"
    "(b mod 16 * 4 + c div 64) mod 4 * 64 + c mod 64 = c"
proof -
  from assms have s: "b div 16 < 16" "c div 64 < 4" by simp_all
  show "a div 4 * 4 + (a mod 4 * 16 + b div 16) div 16 = a"
    by (simp add: div_add_small[OF s(1)])
  show "(a mod 4 * 16 + b div 16) mod 16 * 16 + (b mod 16 * 4 + c div 64) div 4 = b"
    using s by (simp add: div_add_small[OF s(2)])
  show "(b mod 16 * 4 + c div 64) mod 4 * 64 + c mod 64 = c"
    using s by simp
qed

lemma group2:
  assumes "b < 256"
  shows "(a mod 4 * 16 + b div 16) mod 16 * 16 + (b mod 16 * 4) div 4 = (b::nat)"
proof -
  from assms have s: "b div 16 < 16" by simp
  show ?thesis using s by simp
qed

lemma group1: "a div 4 * 4 + (a mod 4 * 16) div 16 = (a::nat)"
  by simp

lemma unsextets_sextets: "\<forall>b\<in>set bs. b < 256 \<Longrightarrow> unsextets (sextets bs) = bs"
proof (induction bs rule: sextets.induct)
  case (1 a b c bs)
  then have "b < 256" "c < 256" by simp_all
  from group3[OF this] 1 show ?case by simp
next
  case (2 a b)
  then have "b < 256" by simp
  from group3(1)[OF this this, of a] group2[OF this, of a] show ?case by simp
next
  case (3 a)
  from group1[of a] show ?case by simp
next
  case 4
  then show ?case by simp
qed

lemma b64_round_trip: "b64_decode (b64_encode buf) = buf"
proof -
  let ?bs = "map unat buf"
  have "unat w < 256" for w :: byte
    using unsigned_less[of w, where 'a = nat] by simp
  then have lt: "\<forall>b\<in>set ?bs. b < 256" by simp
  have "b64_decode (b64_encode buf) = map of_nat (unsextets (sextets ?bs))"
    by (simp add: b64_decode_def b64_encode_def Let_def takeWhile_b64[OF sextets_lt64[OF lt]]
        map_filter_b64[OF sextets_lt64[OF lt]])
  also have "\<dots> = map of_nat ?bs"
    by (simp add: unsextets_sextets[OF lt])
  also have "\<dots> = buf"
    by (simp add: comp_def)
  finally show ?thesis .
qed

subsection \<open>UTF-8\<close>

declare utf8_scan.simps [simp del]

lemma utf8_of_1: "cp < 0x80 \<Longrightarrow> utf8_of cp = [cp]"
  by (simp add: utf8_of_def scalar_def)

lemma utf8_of_2:
  "0x80 \<le> cp \<Longrightarrow> cp < 0x800 \<Longrightarrow> utf8_of cp = [0xC0 + cp div 64, 0x80 + cp mod 64]"
  by (simp add: utf8_of_def scalar_def)

lemma utf8_of_3:
  "scalar cp \<Longrightarrow> 0x800 \<le> cp \<Longrightarrow> cp < 0x10000 \<Longrightarrow>
   utf8_of cp = [0xE0 + cp div 4096, 0x80 + cp div 64 mod 64, 0x80 + cp mod 64]"
  by (simp add: utf8_of_def)

lemma utf8_of_4:
  "scalar cp \<Longrightarrow> 0x10000 \<le> cp \<Longrightarrow>
   utf8_of cp = [0xF0 + cp div 262144, 0x80 + cp div 4096 mod 64, 0x80 + cp div 64 mod 64,
                 0x80 + cp mod 64]"
  by (simp add: utf8_of_def)

lemma cont_byte: "x < 64 \<Longrightarrow> cont (0x80 + x)"
  by (simp add: cont_def)

lemma scan_1: "cp < 0x80 \<Longrightarrow> utf8_scan (cp # rest) = cp # utf8_scan rest"
  by (simp add: utf8_scan.simps)

lemma scan_2:
  assumes "2 \<le> hi" "hi < 32" "lo < 64"
  shows "utf8_scan ((0xC0 + hi) # (0x80 + lo) # rest) = (hi * 64 + lo) # utf8_scan rest"
proof -
  have v: "cp2 (0xC0 + hi) (0x80 + lo) = hi * 64 + lo" by (simp add: cp2_def)
  from assms show ?thesis by (simp add: utf8_scan.simps cont_def v)
qed

lemma scan_3:
  assumes "hi < 16" "mid < 64" "lo < 64" "0x800 \<le> hi * 4096 + mid * 64 + lo"
    "scalar (hi * 4096 + mid * 64 + lo)"
  shows "utf8_scan ((0xE0 + hi) # (0x80 + mid) # (0x80 + lo) # rest) =
         (hi * 4096 + mid * 64 + lo) # utf8_scan rest"
proof -
  have v: "cp3 (0xE0 + hi) (0x80 + mid) (0x80 + lo) = hi * 4096 + mid * 64 + lo"
    by (simp add: cp3_def)
  have c: "cont (0x80 + mid)" "cont (0x80 + lo)" using assms(2,3) by (simp_all add: cont_def)
  have r: "\<not> 0xE0 + hi < 0x80" "\<not> (0xC2 \<le> 0xE0 + hi \<and> 0xE0 + hi < 0xE0)"
    "0xE0 \<le> 0xE0 + hi \<and> 0xE0 + hi < 0xF0"
    using assms(1) by simp_all
  show ?thesis
    by (simp only: utf8_scan.simps r c v assms(4,5) if_True if_False list.case simp_thms)
qed

lemma scan_4:
  assumes "hi < 5" "m1 < 64" "m2 < 64" "lo < 64"
    "0x10000 \<le> hi * 262144 + m1 * 4096 + m2 * 64 + lo"
    "scalar (hi * 262144 + m1 * 4096 + m2 * 64 + lo)"
  shows "utf8_scan ((0xF0 + hi) # (0x80 + m1) # (0x80 + m2) # (0x80 + lo) # rest) =
         (hi * 262144 + m1 * 4096 + m2 * 64 + lo) # utf8_scan rest"
proof -
  have v: "cp4 (0xF0 + hi) (0x80 + m1) (0x80 + m2) (0x80 + lo) =
           hi * 262144 + m1 * 4096 + m2 * 64 + lo"
    by (simp add: cp4_def)
  have c: "cont (0x80 + m1)" "cont (0x80 + m2)" "cont (0x80 + lo)"
    using assms(2,3,4) by (simp_all add: cont_def)
  have r: "\<not> 0xF0 + hi < 0x80" "\<not> (0xC2 \<le> 0xF0 + hi \<and> 0xF0 + hi < 0xE0)"
    "\<not> (0xE0 \<le> 0xF0 + hi \<and> 0xF0 + hi < 0xF0)"
    "0xF0 \<le> 0xF0 + hi \<and> 0xF0 + hi < 0xF5"
    using assms(1) by simp_all
  show ?thesis
    by (simp only: utf8_scan.simps r c v assms(5,6) if_True if_False list.case simp_thms)
qed

lemma split3: "cp div 4096 * 4096 + cp div 64 mod 64 * 64 + cp mod 64 = (cp::nat)"
proof -
  have a: "cp div 64 div 64 = cp div 4096"
    using div_mult2_eq[of cp 64 64] by simp
  have "cp div 64 = cp div 64 div 64 * 64 + cp div 64 mod 64" by simp
  with a have "cp div 64 = cp div 4096 * 64 + cp div 64 mod 64" by simp
  then have "cp div 4096 * 4096 + cp div 64 mod 64 * 64 = cp div 64 * 64" by simp
  then show ?thesis by simp
qed

lemma split4:
  "cp div 262144 * 262144 + cp div 4096 mod 64 * 4096 + cp div 64 mod 64 * 64 + cp mod 64 = (cp::nat)"
proof -
  have a: "cp div 4096 div 64 = cp div 262144"
    using div_mult2_eq[of cp 4096 64] by simp
  have "cp div 4096 = cp div 4096 div 64 * 64 + cp div 4096 mod 64" by simp
  with a have "cp div 4096 = cp div 262144 * 64 + cp div 4096 mod 64" by simp
  then have "cp div 262144 * 262144 + cp div 4096 mod 64 * 4096 = cp div 4096 * 4096" by simp
  with split3[of cp] show ?thesis by simp
qed

lemma scan_of:
  assumes "scalar cp"
  shows "utf8_scan (utf8_of cp @ rest) = cp # utf8_scan rest"
proof -
  consider "cp < 0x80" | "0x80 \<le> cp" "cp < 0x800" | "0x800 \<le> cp" "cp < 0x10000" | "0x10000 \<le> cp"
    by linarith
  then show ?thesis
  proof cases
    case 1
    then show ?thesis by (simp add: utf8_of_1 scan_1)
  next
    case 2
    then have "2 \<le> cp div 64" "cp div 64 < 32" "cp mod 64 < 64" by simp_all
    from scan_2[OF this, of rest] 2 show ?thesis
      by (simp add: utf8_of_2)
  next
    case 3
    then have b: "cp div 4096 < 16" "cp div 64 mod 64 < 64" "cp mod 64 < 64" by simp_all
    from scan_3[OF b, of rest] 3 assms show ?thesis
      by (simp add: utf8_of_3 split3)
  next
    case 4
    from assms have "cp < 0x110000" by (simp add: scalar_def)
    then have b: "cp div 262144 < 5" "cp div 4096 mod 64 < 64" "cp div 64 mod 64 < 64" "cp mod 64 < 64"
      by simp_all
    from scan_4[OF b, of rest] 4 assms show ?thesis
      by (simp add: utf8_of_4 split4)
  qed
qed

lemma scan_encode:
  "\<forall>cp\<in>set cps. scalar cp \<Longrightarrow> utf8_scan (concat (map utf8_of cps)) = cps"
  by (induction cps) (simp_all add: scan_of utf8_scan.simps)

lemma utf8_of_byte: "\<forall>b\<in>set (utf8_of cp). b < 256"
proof (cases "scalar cp")
  case False
  then show ?thesis by (simp add: utf8_of_def)
next
  case True
  have m: "n mod 64 < 128" for n :: nat
    using mod_less_divisor[of 64 n] by linarith
  consider "cp < 0x80" | "0x80 \<le> cp" "cp < 0x800" | "0x800 \<le> cp" "cp < 0x10000" | "0x10000 \<le> cp"
    by linarith
  then show ?thesis
  proof cases
    case 1
    then show ?thesis by (simp add: utf8_of_1)
  next
    case 2
    then have "cp div 64 < 32" by simp
    with 2 show ?thesis by (simp add: utf8_of_2 m)
  next
    case 3
    then have "cp div 4096 < 16" by simp
    with 3 True show ?thesis by (simp add: utf8_of_3 m)
  next
    case 4
    from True have "cp < 0x110000" by (simp add: scalar_def)
    then have "cp div 262144 < 5" by simp
    with 4 True show ?thesis by (simp add: utf8_of_4 m)
  qed
qed

lemma scalar_ascii: "b < 0x80 \<Longrightarrow> scalar b"
  by (simp add: scalar_def)

lemma scalar_2:
  assumes "b < 0xE0" "cont c"
  shows "scalar (cp2 b c)"
proof -
  from assms have "b - 0xC0 \<le> 31" "c - 0x80 \<le> 63" unfolding cont_def by linarith+
  then have "(b - 0xC0) * 64 \<le> 31 * 64" "c - 0x80 \<le> 63" by simp_all
  then have "cp2 b c < 0x800" unfolding cp2_def by linarith
  then show ?thesis by (simp add: scalar_def)
qed

lemma scalar_replacement: "scalar 0xFFFD"
  by (simp add: scalar_def)

lemma scan_step:
  "\<exists>cp r. utf8_scan (b # bs) = cp # utf8_scan r \<and> scalar cp \<and> length r \<le> length bs"
proof -
  have bad: ?thesis if "utf8_scan (b # bs) = 0xFFFD # utf8_scan bs"
    using that scalar_replacement by blast
  consider "b < 0x80" | "0xC2 \<le> b \<and> b < 0xE0" | "0xE0 \<le> b \<and> b < 0xF0" | "0xF0 \<le> b \<and> b < 0xF5"
    | "\<not> b < 0x80" "\<not> (0xC2 \<le> b \<and> b < 0xE0)" "\<not> (0xE0 \<le> b \<and> b < 0xF0)" "\<not> (0xF0 \<le> b \<and> b < 0xF5)"
    by blast
  then show ?thesis
  proof cases
    case 1
    then have "utf8_scan (b # bs) = b # utf8_scan bs" by (simp add: utf8_scan.simps)
    with scalar_ascii[OF 1] show ?thesis by blast
  next
    case 2
    then have e: "utf8_scan (b # bs) =
        (case bs of c # r \<Rightarrow> if cont c then cp2 b c # utf8_scan r else 0xFFFD # utf8_scan bs
         | _ \<Rightarrow> 0xFFFD # utf8_scan bs)"
      by (simp add: utf8_scan.simps(2)[of b bs])
    show ?thesis
    proof (cases bs)
      case Nil
      with e show ?thesis by (intro bad) simp
    next
      case (Cons c r)
      show ?thesis
      proof (cases "cont c")
        case True
        with e Cons have "utf8_scan (b # bs) = cp2 b c # utf8_scan r" by simp
        moreover have "scalar (cp2 b c)" using 2 True by (intro scalar_2) simp_all
        moreover have "length r \<le> length bs" using Cons by simp
        ultimately show ?thesis by blast
      next
        case False
        with e Cons show ?thesis by (intro bad) simp
      qed
    qed
  next
    case 3
    then have e: "utf8_scan (b # bs) =
        (case bs of
           c # d # r \<Rightarrow>
             if cont c \<and> cont d \<and> 0x800 \<le> cp3 b c d \<and> scalar (cp3 b c d)
             then cp3 b c d # utf8_scan r
             else 0xFFFD # utf8_scan bs
         | _ \<Rightarrow> 0xFFFD # utf8_scan bs)"
      by (simp add: utf8_scan.simps(2)[of b bs])
    show ?thesis
    proof (cases "\<exists>c d r. bs = c # d # r \<and> cont c \<and> cont d \<and> 0x800 \<le> cp3 b c d \<and> scalar (cp3 b c d)")
      case True
      then obtain c d r where h: "bs = c # d # r" "cont c \<and> cont d \<and> 0x800 \<le> cp3 b c d \<and> scalar (cp3 b c d)"
        by blast
      with e have "utf8_scan (b # bs) = cp3 b c d # utf8_scan r" by simp
      moreover have "length r \<le> length bs" using h(1) by simp
      ultimately show ?thesis using h(2) by blast
    next
      case False
      with e show ?thesis by (intro bad) (auto split: list.splits)
    qed
  next
    case 4
    then have e: "utf8_scan (b # bs) =
        (case bs of
           c # d # e # r \<Rightarrow>
             if cont c \<and> cont d \<and> cont e \<and> 0x10000 \<le> cp4 b c d e \<and> scalar (cp4 b c d e)
             then cp4 b c d e # utf8_scan r
             else 0xFFFD # utf8_scan bs
         | _ \<Rightarrow> 0xFFFD # utf8_scan bs)"
      by (simp add: utf8_scan.simps(2)[of b bs])
    show ?thesis
    proof (cases "\<exists>c d e r. bs = c # d # e # r \<and> cont c \<and> cont d \<and> cont e \<and>
                     0x10000 \<le> cp4 b c d e \<and> scalar (cp4 b c d e)")
      case True
      then obtain c d e' r where h: "bs = c # d # e' # r"
        "cont c \<and> cont d \<and> cont e' \<and> 0x10000 \<le> cp4 b c d e' \<and> scalar (cp4 b c d e')"
        by blast
      with e have "utf8_scan (b # bs) = cp4 b c d e' # utf8_scan r" by simp
      moreover have "length r \<le> length bs" using h(1) by simp
      ultimately show ?thesis using h(2) by blast
    next
      case False
      with e show ?thesis by (intro bad) (auto split: list.splits)
    qed
  next
    case 5
    show ?thesis
      by (intro bad) (simp only: utf8_scan.simps(2)[of b bs] 5 if_False)
  qed
qed

lemma scan_scalar: "\<forall>cp\<in>set (utf8_scan bs). scalar cp"
proof (induction bs rule: length_induct)
  case (1 bs)
  show ?case
  proof (cases bs)
    case Nil
    then show ?thesis by (simp add: utf8_scan.simps)
  next
    case (Cons b bs')
    from scan_step[of b bs'] obtain cp r where
      s: "utf8_scan (b # bs') = cp # utf8_scan r" "scalar cp" "length r \<le> length bs'"
      by blast
    from s(3) Cons have "length r < length bs" by simp
    with 1 have "\<forall>cp\<in>set (utf8_scan r). scalar cp" by blast
    with s(1,2) Cons show ?thesis by simp
  qed
qed

lemma unat_of_nat_bytes:
  "\<forall>b\<in>set ns. b < 256 \<Longrightarrow> map unat (map of_nat ns :: byte list) = ns"
  by (induction ns) (simp_all add: unat_of_nat)

lemma utf8_round_trip:
  assumes "\<forall>cp\<in>set cps. scalar cp"
  shows "utf8_decode (utf8_encode cps) = cps"
proof -
  have "\<forall>b\<in>set (concat (map utf8_of cps)). b < 256"
    using utf8_of_byte by auto
  then have "map unat (utf8_encode cps) = concat (map utf8_of cps)"
    unfolding utf8_encode_def by (rule unat_of_nat_bytes)
  then show ?thesis
    by (simp add: utf8_decode_def scan_encode[OF assms])
qed

lemma utf8_decode_stable: "utf8_decode (utf8_encode (utf8_decode buf)) = utf8_decode buf"
  by (rule utf8_round_trip) (simp add: utf8_decode_def scan_scalar)

subsection \<open>Snapshot content\<close>

text \<open>
  Claim C8. Decoding the base64 form of any bytes gives the bytes back, and decoding
  the base64 form of UTF-8 encoded text as UTF-8 gives the text back. The content of
  every file snapshot that \<open>sendFileSnapshot\<close> enqueues is the base64 form of some
  bytes, in the binary branch and in the textual one: when the file is binary,
  base64-decoding it yields the bytes of the file; when it is not, base64-decoding it
  and reading the result as UTF-8 yields the text of the file, that is, what
  \<open>buf.toString('utf8')\<close> made of its bytes.
\<close>

theorem snapshot_round_trip:
  "b64_decode (b64_encode bs) = bs \<and>
   ((\<forall>cp\<in>set cps. scalar cp) \<longrightarrow>
      utf8_decode (b64_decode (b64_encode (utf8_encode cps))) = cps) \<and>
   (sendFileSnapshot h root u = Some (PostJson ep (FileSnapshot p isBin c)) \<and>
    readFile h (fsPath u) = Some buf \<longrightarrow>
      ep = ''/event/fileSnapshot'' \<and> isBin = isBinaryFile h buf \<and>
      (\<exists>bytes. c = b64_encode bytes) \<and>
      (isBin \<longrightarrow> b64_decode c = buf) \<and>
      (\<not> isBin \<longrightarrow> utf8_decode (b64_decode c) = utf8_decode buf))"
proof -
  have 1: "b64_decode (b64_encode bs) = bs" by (rule b64_round_trip)
  have 2: "(\<forall>cp\<in>set cps. scalar cp) \<longrightarrow>
      utf8_decode (b64_decode (b64_encode (utf8_encode cps))) = cps"
    by (simp add: b64_round_trip utf8_round_trip)
  have 3: "ep = ''/event/fileSnapshot'' \<and> isBin = isBinaryFile h buf \<and>
      (\<exists>bytes. c = b64_encode bytes) \<and>
      (isBin \<longrightarrow> b64_decode c = buf) \<and>
      (\<not> isBin \<longrightarrow> utf8_decode (b64_decode c) = utf8_decode buf)"
    if a: "sendFileSnapshot h root u = Some (PostJson ep (FileSnapshot p isBin c)) \<and>
           readFile h (fsPath u) = Some buf"
  proof -
    from a have e: "ep = ''/event/fileSnapshot''" "isBin = isBinaryFile h buf"
      "c = (if isBin then b64_encode buf else b64_encode (utf8_encode (utf8_decode buf)))"
      by (auto simp: sendFileSnapshot_def Let_def)
    from e(3) have "\<exists>bytes. c = b64_encode bytes" by (cases isBin) auto
    moreover from e(3) have "isBin \<longrightarrow> b64_decode c = buf"
      by (simp add: b64_round_trip)
    moreover from e(3) have "\<not> isBin \<longrightarrow> utf8_decode (b64_decode c) = utf8_decode buf"
      by (simp add: b64_round_trip utf8_decode_stable)
    ultimately show ?thesis using e(1,2) by blast
  qed
  from 1 2 3 show ?thesis by blast
qed

theorem snapshot_round_trip_witness:
  "readFile posix_host (fsPath posix_file) = Some [0x68, 0x69] \<and>
   sendFileSnapshot posix_host posix_root posix_file =
     Some (PostJson ''/event/fileSnapshot'' (FileSnapshot ''a.txt'' False ''aGk='')) \<and>
   utf8_decode (b64_decode ''aGk='') = utf8_decode [0x68, 0x69] \<and>
   readFile posix_host (fsPath posix_binary) = Some [0x00, 0xFF] \<and>
   sendFileSnapshot posix_host posix_root posix_binary =
     Some (PostJson ''/event/fileSnapshot'' (FileSnapshot ''b.bin'' True ''AP8='')) \<and>
   b64_decode ''AP8='' = [0x00, 0xFF]"
proof -
  have r1: "readFile posix_host (fsPath posix_file) = Some [0x68, 0x69]"
    by (simp add: posix_host_def posix_file_def)
  have r2: "readFile posix_host (fsPath posix_binary) = Some [0x00, 0xFF]"
    by (simp add: posix_host_def posix_binary_def)
  have p1: "rel_path posix_host posix_root posix_file = ''a.txt''"
    by (rule rel_posix_file)
  have p2: "rel_path posix_host posix_root posix_binary = ''b.bin''"
    by (simp add: path_eval posix_host_def posix_root_def posix_binary_def)
  have i1: "\<not> isBinaryFile posix_host [0x68, 0x69]" "isBinaryFile posix_host [0x00, 0xFF]"
    by (simp_all add: posix_host_def)
  have d: "utf8_decode [0x68, 0x69] = [0x68, 0x69]"
    by (simp add: utf8_decode_def utf8_scan.simps)
  have e: "utf8_encode [0x68, 0x69] = [0x68, 0x69]"
    by (simp add: utf8_encode_def utf8_of_def scalar_def)
  have b1: "b64_encode [0x68, 0x69] = ''aGk=''"
    by (simp add: b64_encode_def b64_char_def b64_alphabet_def)
  have b2: "b64_encode [0x00, 0xFF] = ''AP8=''"
    by (simp add: b64_encode_def b64_char_def b64_alphabet_def)
  have s1: "sendFileSnapshot posix_host posix_root posix_file =
     Some (PostJson ''/event/fileSnapshot'' (FileSnapshot ''a.txt'' False ''aGk=''))"
    by (simp add: sendFileSnapshot_def r1 p1 i1 d e b1)
  have s2: "sendFileSnapshot posix_host posix_root posix_binary =
     Some (PostJson ''/event/fileSnapshot'' (FileSnapshot ''b.bin'' True ''AP8=''))"
    by (simp add: sendFileSnapshot_def r2 p2 i1 b2)
  from snapshot_round_trip[of _ _ posix_host posix_root posix_file "''/event/fileSnapshot''"
      "''a.txt''" False "''aGk=''" "[0x68, 0x69]"] s1 r1
  have t1: "utf8_decode (b64_decode ''aGk='') = utf8_decode [0x68, 0x69]" by blast
  from snapshot_round_trip[of _ _ posix_host posix_root posix_binary "''/event/fileSnapshot''"
      "''b.bin''" True "''AP8=''" "[0x00, 0xFF]"] s2 r2
  have t2: "b64_decode ''AP8='' = [0x00, 0xFF]" by blast
  show ?thesis by (intro conjI) (fact r1 s1 t1 r2 s2 t2)+
qed

end
